theory Spec2Isabelle
  imports Main
begin

section \<open>Data model of the subscription manager\<close>

text \<open>
  The embedding follows \<^verbatim>\<open>go/kbfs/libkbfs/subscription_manager.go\<close>. Go strings are
  byte strings, modelled as \<^typ>\<open>string\<close>. Go maps are partial functions; reading a
  missing key gives the zero value of the value type, which every lookup below writes out.
\<close>

type_synonym SubscriptionManagerClientID = string
type_synonym SubscriptionID = string
type_synonym userPath = string
type_synonym cleanInTlfPath = string

text \<open>
  Modelled from the spec: \<^verbatim>\<open>data.FolderBranch\<close> (the spec's ContainerBranch, a
  container identifier plus a revision line) is declared in package \<^verbatim>\<open>data\<close>, not in
  \<^verbatim>\<open>subscription_manager.go\<close>. Its zero value \<^verbatim>\<open>data.FolderBranch{}\<close> stands for an
  unresolved container.
\<close>

datatype FolderBranch = FolderBranch (Tlf: string) (Branch: string)

definition zeroFolderBranch :: FolderBranch where
  "zeroFolderBranch = FolderBranch [] []"

text \<open>
  Modelled from the spec: the topic enumerations of the external protocol
  (\<^verbatim>\<open>keybase1.SubscriptionTopic\<close>, \<^verbatim>\<open>keybase1.PathSubscriptionTopic\<close>) are declared
  in package \<^verbatim>\<open>keybase1\<close>. The non-path topics include the online-status and the overall-sync-status
  topic; every other member of the enumeration is kept by its code.
\<close>

datatype SubscriptionTopic =
    SubscriptionTopic_ONLINE_STATUS
  | SubscriptionTopic_OVERALL_SYNC_STATUS
  | SubscriptionTopic_OTHER nat

type_synonym PathSubscriptionTopic = nat

text \<open>The notifier object a subscriber facade carries, by identity.\<close>

type_synonym SubscriptionNotifier = nat

datatype error =
    DuplicateSubscription SubscriptionID
  | ResolveError string
  | NilPointerPanic
  | IndexOutOfRangePanic

record parsedPath =
  rawInTlfPath :: string

text \<open>
  Modelled from the spec: the path resolver (\<^verbatim>\<open>parsePath\<close>,
  \<^verbatim>\<open>parsedPath.getFolderBranch\<close>) is an external collaborator,
  \<^verbatim>\<open>resolve(rawPath) \<rightarrow> (ContainerBranch, in-container raw path) | error\<close>, and
  \<^verbatim>\<open>path.Clean\<close> belongs to the Go standard library. All three are parameters.
\<close>

record Config =
  parsePath :: "userPath \<Rightarrow> error + parsedPath"
  getFolderBranch :: "parsedPath \<Rightarrow> error + FolderBranch"
  pathClean :: "string \<Rightarrow> string"

definition getCleanInTlfPath :: "Config \<Rightarrow> parsedPath \<Rightarrow> cleanInTlfPath" where
  "getCleanInTlfPath cfg p = pathClean cfg (rawInTlfPath p)"

subsection \<open>Parent paths\<close>

text \<open>\<^verbatim>\<open>strings.LastIndex(s, "/")\<close> for a one-byte separator: the index of its last
  occurrence, or \<open>-1\<close>.\<close>

fun LastIndex :: "string \<Rightarrow> char \<Rightarrow> int" where
  "LastIndex [] c = -1"
| "LastIndex (x # xs) c =
     (let r = LastIndex xs c in
      if r \<noteq> -1 then r + 1 else if x = c then 0 else -1)"

definition getParentPath :: "cleanInTlfPath \<Rightarrow> cleanInTlfPath option" where
  "getParentPath p =
     (let lastSlashIndex = LastIndex p CHR ''/'' in
      if lastSlashIndex \<le> 0 then None else Some (take (nat lastSlashIndex) p))"

subsection \<open>Debounced notifiers as the manager sees them\<close>

text \<open>
  \<^verbatim>\<open>rate.Limit\<close>: either \<^verbatim>\<open>rate.Inf\<close> or one event per interval. \<^verbatim>\<open>rate.Every\<close>
  turns a non-positive interval into \<^verbatim>\<open>rate.Inf\<close>.
\<close>

datatype Limit = rate_Inf | rate_PerInterval nat

definition rate_Every :: "int \<Rightarrow> Limit" where
  "rate_Every interval =
     (if interval \<le> 0 then rate_Inf else rate_PerInterval (nat interval))"

text \<open>The closure handed to \<^verbatim>\<open>debounce\<close>, by what it calls when it runs.\<close>

datatype callback =
    OnPathChange SubscriptionNotifier SubscriptionManagerClientID SubscriptionID
      string PathSubscriptionTopic
  | OnNonPathChange SubscriptionNotifier SubscriptionManagerClientID SubscriptionID
      SubscriptionTopic

text \<open>
  A \<^verbatim>\<open>debouncedNotify\<close> is a pair of closures over one channel, one context and one
  goroutine. The manager only stores it and calls its two closures, so here it is the
  data that determines the pair; what a call does is the subject of the last section.
\<close>

record debouncedNotify =
  do :: callback
  limit :: Limit

definition debounce :: "callback \<Rightarrow> Limit \<Rightarrow> debouncedNotify" where
  "debounce d l = \<lparr>do = d, limit = l\<rparr>"

record pathSubscriptionRef =
  folderBranch :: FolderBranch
  path :: cleanInTlfPath

record subscriptionManager =
  clientID :: SubscriptionManagerClientID
  config :: Config
  pathSubscriptions :: "pathSubscriptionRef \<rightharpoonup> (SubscriptionID \<rightharpoonup> debouncedNotify)"
  pathSubscriptionIDToRef :: "SubscriptionID \<rightharpoonup> pathSubscriptionRef"
  nonPathSubscriptions :: "SubscriptionTopic \<rightharpoonup> (SubscriptionID \<rightharpoonup> debouncedNotify)"
  nonPathSubscriptionIDToTopic :: "SubscriptionID \<rightharpoonup> SubscriptionTopic"
  subscriptionIDs :: "SubscriptionID \<rightharpoonup> bool"
  subscriptionCountByFolderBranch :: "FolderBranch \<rightharpoonup> int"

text \<open>
  What an operation does to its collaborators, in the order of the calls: the
  registrar of the change source, the \<^verbatim>\<open>shutdown\<close> closure of a debounced notifier, and
  the online-status tracker.
\<close>

datatype effect =
    RegisterForChanges FolderBranch
  | UnregisterFromChanges FolderBranch
  | shutdownCall debouncedNotify
  | trackerShutdown SubscriptionManagerClientID

text \<open>
  A call of the \<^verbatim>\<open>notify\<close> closure stored at \<^verbatim>\<open>pathSubscriptions[ref][sid]\<close> or at
  \<^verbatim>\<open>nonPathSubscriptions[topic][sid]\<close>. A \<^verbatim>\<open>range\<close> loop visits each key once in no
  specified order, so a fan-out is the set of its calls.
\<close>

datatype notifyCall =
    pathNotify pathSubscriptionRef SubscriptionID debouncedNotify
  | nonPathNotify SubscriptionTopic SubscriptionID debouncedNotify

text \<open>Map reads with Go's zero values.\<close>

definition bucket :: "('k \<rightharpoonup> ('s \<rightharpoonup> 'v)) \<Rightarrow> 'k \<Rightarrow> ('s \<rightharpoonup> 'v)" where
  "bucket m k = (case m k of None \<Rightarrow> Map.empty | Some b \<Rightarrow> b)"

definition isSet :: "('k \<rightharpoonup> bool) \<Rightarrow> 'k \<Rightarrow> bool" where
  "isSet m k = (case m k of None \<Rightarrow> False | Some b \<Rightarrow> b)"

definition countOf :: "('k \<rightharpoonup> int) \<Rightarrow> 'k \<Rightarrow> int" where
  "countOf m k = (case m k of None \<Rightarrow> 0 | Some n \<Rightarrow> n)"

section \<open>Operations of the subscription manager\<close>

definition newSubscriptionManager ::
  "SubscriptionManagerClientID \<Rightarrow> Config \<Rightarrow> subscriptionManager" where
  "newSubscriptionManager cid cfg =
     \<lparr>clientID = cid, config = cfg,
      pathSubscriptions = Map.empty, pathSubscriptionIDToRef = Map.empty,
      nonPathSubscriptions = Map.empty, nonPathSubscriptionIDToTopic = Map.empty,
      subscriptionIDs = Map.empty, subscriptionCountByFolderBranch = Map.empty\<rparr>"

text \<open>The second component of a success is the setter closure the source returns.\<close>

definition checkSubscriptionIDLocked ::
  "subscriptionManager \<Rightarrow> SubscriptionID \<Rightarrow>
     error + (subscriptionManager \<Rightarrow> subscriptionManager)" where
  "checkSubscriptionIDLocked sm sid =
     (if isSet (subscriptionIDs sm) sid then Inl (DuplicateSubscription sid)
      else Inr (\<lambda>s. s\<lparr>subscriptionIDs := (subscriptionIDs s)(sid \<mapsto> True)\<rparr>))"

definition registerForChangesLocked ::
  "subscriptionManager \<Rightarrow> FolderBranch \<Rightarrow> subscriptionManager \<times> effect list" where
  "registerForChangesLocked sm fb =
     (let c = subscriptionCountByFolderBranch sm in
      (sm\<lparr>subscriptionCountByFolderBranch := c(fb \<mapsto> countOf c fb + 1)\<rparr>,
       if countOf c fb = 0 then [RegisterForChanges fb] else []))"

definition unregisterForChangesLocked ::
  "subscriptionManager \<Rightarrow> FolderBranch \<Rightarrow> subscriptionManager \<times> effect list" where
  "unregisterForChangesLocked sm fb =
     (let c = subscriptionCountByFolderBranch sm in
      if countOf c fb = 1
      then (sm\<lparr>subscriptionCountByFolderBranch := c(fb := None)\<rparr>,
            [UnregisterFromChanges fb])
      else (sm\<lparr>subscriptionCountByFolderBranch := c(fb \<mapsto> countOf c fb - 1)\<rparr>, []))"

definition limitOf :: "int option \<Rightarrow> Limit" where
  "limitOf deduplicateInterval =
     (case deduplicateInterval of None \<Rightarrow> rate_Inf | Some d \<Rightarrow> rate_Every d)"

definition subscribePath ::
  "subscriptionManager \<Rightarrow> SubscriptionID \<Rightarrow> string \<Rightarrow> PathSubscriptionTopic \<Rightarrow>
     int option \<Rightarrow> SubscriptionNotifier \<Rightarrow>
     error option \<times> subscriptionManager \<times> effect list" where
  "subscribePath sm sid p topic deduplicateInterval notifier =
     (case parsePath (config sm) p of
        Inl err \<Rightarrow> (Some err, sm, [])
      | Inr parsed \<Rightarrow>
          (case getFolderBranch (config sm) parsed of
             Inl err \<Rightarrow> (Some err, sm, [])
           | Inr fb \<Rightarrow>
               if fb = zeroFolderBranch then (None, sm, [])
               else
                 let ref = \<lparr>folderBranch = fb,
                            path = getCleanInTlfPath (config sm) parsed\<rparr>
                 in (case checkSubscriptionIDLocked sm sid of
                       Inl err \<Rightarrow> (Some err, sm, [])
                     | Inr subscriptionIDSetter \<Rightarrow>
                         let (sm1, effs) = registerForChangesLocked sm (folderBranch ref);
                             subs = bucket (pathSubscriptions sm1) ref;
                             n = debounce (OnPathChange notifier (clientID sm) sid p topic)
                                   (limitOf deduplicateInterval);
                             sm2 = sm1\<lparr>pathSubscriptions :=
                                         (pathSubscriptions sm1)(ref \<mapsto> subs(sid \<mapsto> n))\<rparr>;
                             sm3 = sm2\<lparr>pathSubscriptionIDToRef :=
                                         (pathSubscriptionIDToRef sm2)(sid \<mapsto> ref)\<rparr>
                         in (None, subscriptionIDSetter sm3, effs))))"

definition subscribeNonPath ::
  "subscriptionManager \<Rightarrow> SubscriptionID \<Rightarrow> SubscriptionTopic \<Rightarrow>
     int option \<Rightarrow> SubscriptionNotifier \<Rightarrow>
     error option \<times> subscriptionManager \<times> effect list" where
  "subscribeNonPath sm sid topic deduplicateInterval notifier =
     (case checkSubscriptionIDLocked sm sid of
        Inl err \<Rightarrow> (Some err, sm, [])
      | Inr subscriptionIDSetter \<Rightarrow>
          let subs = bucket (nonPathSubscriptions sm) topic;
              n = debounce (OnNonPathChange notifier (clientID sm) sid topic)
                    (limitOf deduplicateInterval);
              sm1 = sm\<lparr>nonPathSubscriptions :=
                         (nonPathSubscriptions sm)(topic \<mapsto> subs(sid \<mapsto> n))\<rparr>;
              sm2 = sm1\<lparr>nonPathSubscriptionIDToTopic :=
                          (nonPathSubscriptionIDToTopic sm1)(sid \<mapsto> topic)\<rparr>
          in (None, subscriptionIDSetter sm2, []))"

definition unsubscribePath ::
  "subscriptionManager \<Rightarrow> SubscriptionID \<Rightarrow> subscriptionManager \<times> effect list" where
  "unsubscribePath sm subscriptionID =
     (case pathSubscriptionIDToRef sm subscriptionID of
        None \<Rightarrow> (sm, [])
      | Some ref \<Rightarrow>
          let sm1 = sm\<lparr>pathSubscriptionIDToRef :=
                         (pathSubscriptionIDToRef sm)(subscriptionID := None)\<rparr>
          in (case pathSubscriptions sm1 ref of
                None \<Rightarrow> (sm1, [])
              | Some subs \<Rightarrow>
                  let (sm2, e1) =
                        (case subs subscriptionID of
                           Some notifier \<Rightarrow>
                             (sm1\<lparr>pathSubscriptions :=
                                    (pathSubscriptions sm1)
                                      (ref \<mapsto> subs(subscriptionID := None))\<rparr>,
                              [shutdownCall notifier])
                         | None \<Rightarrow> (sm1, []));
                      (sm3, e2) =
                        (if dom (bucket (pathSubscriptions sm2) ref) = {}
                         then let (s, e) = unregisterForChangesLocked sm2 (folderBranch ref)
                              in (s\<lparr>pathSubscriptions :=
                                      (pathSubscriptions s)(ref := None)\<rparr>, e)
                         else (sm2, []))
                  in (sm3\<lparr>subscriptionIDs :=
                            (subscriptionIDs sm3)(subscriptionID := None)\<rparr>,
                      e1 @ e2)))"

definition unsubscribeNonPath ::
  "subscriptionManager \<Rightarrow> SubscriptionID \<Rightarrow> subscriptionManager \<times> effect list" where
  "unsubscribeNonPath sm subscriptionID =
     (case nonPathSubscriptionIDToTopic sm subscriptionID of
        None \<Rightarrow> (sm, [])
      | Some topic \<Rightarrow>
          let sm1 = sm\<lparr>nonPathSubscriptionIDToTopic :=
                         (nonPathSubscriptionIDToTopic sm)(subscriptionID := None)\<rparr>
          in (case nonPathSubscriptions sm1 topic of
                None \<Rightarrow> (sm1, [])
              | Some subs \<Rightarrow>
                  let (sm2, e1) =
                        (case subs subscriptionID of
                           Some notifier \<Rightarrow>
                             (sm1\<lparr>nonPathSubscriptions :=
                                    (nonPathSubscriptions sm1)
                                      (topic \<mapsto> subs(subscriptionID := None))\<rparr>,
                              [shutdownCall notifier])
                         | None \<Rightarrow> (sm1, []))
                  in (sm2\<lparr>subscriptionIDs :=
                            (subscriptionIDs sm2)(subscriptionID := None)\<rparr>,
                      e1)))"

text \<open>The facade \<^verbatim>\<open>subscriber.Unsubscribe\<close> calls both, the path variant first.\<close>

definition Unsubscribe ::
  "subscriptionManager \<Rightarrow> SubscriptionID \<Rightarrow> subscriptionManager \<times> effect list" where
  "Unsubscribe sm sid =
     (let (sm1, e1) = unsubscribePath sm sid;
          (sm2, e2) = unsubscribeNonPath sm1 sid
      in (sm2, e1 @ e2))"

text \<open>
  \<^verbatim>\<open>Shutdown\<close> collects the keys of both reverse indices with \<^verbatim>\<open>range\<close> and
  unsubscribes them one by one. The order of a \<^verbatim>\<open>range\<close> over a map is not specified, so
  the two orders are arguments; \<open>rangeOrder\<close> says that a list is such an order.
\<close>

definition rangeOrder :: "('k \<rightharpoonup> 'v) \<Rightarrow> 'k list \<Rightarrow> bool" where
  "rangeOrder m ks = (distinct ks \<and> set ks = dom m)"

fun unsubscribeAll ::
  "(subscriptionManager \<Rightarrow> SubscriptionID \<Rightarrow> subscriptionManager \<times> effect list) \<Rightarrow>
     SubscriptionID list \<Rightarrow> subscriptionManager \<Rightarrow> subscriptionManager \<times> effect list" where
  "unsubscribeAll unsub [] sm = (sm, [])"
| "unsubscribeAll unsub (sid # sids) sm =
     (let (sm1, e1) = unsub sm sid;
          (sm2, e2) = unsubscribeAll unsub sids sm1
      in (sm2, e1 @ e2))"

definition Shutdown ::
  "subscriptionManager \<Rightarrow> SubscriptionID list \<Rightarrow> SubscriptionID list \<Rightarrow>
     subscriptionManager \<times> effect list" where
  "Shutdown sm pathSids nonPathSids =
     (let (sm1, e1) = unsubscribeAll unsubscribePath pathSids sm;
          (sm2, e2) = unsubscribeAll unsubscribeNonPath nonPathSids sm1
      in (sm2, trackerShutdown (clientID sm) # e1 @ e2))"

subsection \<open>Fan-out\<close>

text \<open>What the change source hands over: \<^verbatim>\<open>Node.GetPathPlaintextSansTlf\<close> (a path and
  whether there is one) and \<^verbatim>\<open>Node.GetFolderBranch\<close>.\<close>

record Node =
  GetPathPlaintextSansTlf :: "string option"
  GetFolderBranch :: FolderBranch

definition notifyRef :: "subscriptionManager \<Rightarrow> pathSubscriptionRef \<Rightarrow> notifyCall set" where
  "notifyRef sm ref =
     (case pathSubscriptions sm ref of
        None \<Rightarrow> {}
      | Some subs \<Rightarrow> (\<lambda>(sid, notifier). pathNotify ref sid notifier) ` Map.graph subs)"

definition nodeChangeLocked :: "subscriptionManager \<Rightarrow> Node \<Rightarrow> notifyCall set" where
  "nodeChangeLocked sm node =
     (case GetPathPlaintextSansTlf node of
        None \<Rightarrow> {}
      | Some cleanPath \<Rightarrow>
          notifyRef sm \<lparr>folderBranch = GetFolderBranch node, path = cleanPath\<rparr> \<union>
          (case getParentPath cleanPath of
             Some parent \<Rightarrow>
               notifyRef sm \<lparr>folderBranch = GetFolderBranch node, path = parent\<rparr>
           | None \<Rightarrow> {}))"

definition LocalChange :: "subscriptionManager \<Rightarrow> Node \<Rightarrow> notifyCall set" where
  "LocalChange sm node = nodeChangeLocked sm node"

text \<open>One set of calls for each change of the batch, in the order of the batch.\<close>

definition BatchChanges :: "subscriptionManager \<Rightarrow> Node list \<Rightarrow> notifyCall set list" where
  "BatchChanges sm changes = map (nodeChangeLocked sm) changes"

definition notifyTopic :: "subscriptionManager \<Rightarrow> SubscriptionTopic \<Rightarrow> notifyCall set" where
  "notifyTopic sm topic =
     (case nonPathSubscriptions sm topic of
        None \<Rightarrow> {}
      | Some subs \<Rightarrow> (\<lambda>(sid, notifier). nonPathNotify topic sid notifier) ` Map.graph subs)"

definition notifyOnlineStatus :: "subscriptionManager \<Rightarrow> notifyCall set" where
  "notifyOnlineStatus sm = notifyTopic sm SubscriptionTopic_ONLINE_STATUS"

definition PublishChange :: "subscriptionManager \<Rightarrow> SubscriptionTopic \<Rightarrow> notifyCall set" where
  "PublishChange sm topic =
     (if topic = SubscriptionTopic_OVERALL_SYNC_STATUS
      then (\<Union>ref \<in> dom (pathSubscriptions sm). notifyRef sm ref)
      else {}) \<union>
     notifyTopic sm topic"

text \<open>The subscription a call of \<^verbatim>\<open>notify\<close> belongs to.\<close>

fun sidOf :: "notifyCall \<Rightarrow> SubscriptionID" where
  "sidOf (pathNotify ref sid notifier) = sid"
| "sidOf (nonPathNotify topic sid notifier) = sid"

fun isPathNotify :: "notifyCall \<Rightarrow> bool" where
  "isPathNotify (pathNotify ref sid notifier) = True"
| "isPathNotify (nonPathNotify topic sid notifier) = False"

section \<open>The registry of managers\<close>

record subscriptionManagerManager =
  smm_config :: Config
  subscriptionManagers :: "SubscriptionManagerClientID \<rightharpoonup> subscriptionManager"
  purgeableClientIDsFIFO :: "SubscriptionManagerClientID list"

definition maxPurgeableSubscriptionManagerClient :: nat where
  "maxPurgeableSubscriptionManagerClient = 3"

definition newSubscriptionManagerManager :: "Config \<Rightarrow> subscriptionManagerManager" where
  "newSubscriptionManagerManager cfg =
     \<lparr>smm_config = cfg, subscriptionManagers = Map.empty, purgeableClientIDsFIFO = []\<rparr>"

text \<open>
  The eviction block of \<^verbatim>\<open>get\<close>: shut the oldest purgeable manager down, delete it
  from the map and drop the head of the queue. \<open>pathSids\<close> and \<open>nonPathSids\<close> are the
  \<^verbatim>\<open>range\<close> orders of that shutdown. Indexing an empty slice and calling \<^verbatim>\<open>Shutdown\<close>
  on a missing map entry (a nil pointer) panic.
\<close>

definition purgeOldest ::
  "subscriptionManagerManager \<Rightarrow> SubscriptionID list \<Rightarrow> SubscriptionID list \<Rightarrow>
     error + (subscriptionManagerManager \<times> effect list)" where
  "purgeOldest smm pathSids nonPathSids =
     (case purgeableClientIDsFIFO smm of
        [] \<Rightarrow> Inl IndexOutOfRangePanic
      | toPurge # rest \<Rightarrow>
          (case subscriptionManagers smm toPurge of
             None \<Rightarrow> Inl NilPointerPanic
           | Some old \<Rightarrow>
               Inr (smm\<lparr>subscriptionManagers := (subscriptionManagers smm)(toPurge := None),
                        purgeableClientIDsFIFO := rest\<rparr>,
                    snd (Shutdown old pathSids nonPathSids))))"

text \<open>\<^verbatim>\<open>get\<close> returns the manager, the registry after the call and the effects of the
  eviction.\<close>

definition get ::
  "subscriptionManagerManager \<Rightarrow> SubscriptionManagerClientID \<Rightarrow> bool \<Rightarrow>
     SubscriptionID list \<Rightarrow> SubscriptionID list \<Rightarrow>
     error + (subscriptionManager \<times> subscriptionManagerManager \<times> effect list)" where
  "get smm cid purgeable pathSids nonPathSids =
     (case subscriptionManagers smm cid of
        Some sm \<Rightarrow> Inr (sm, smm, [])
      | None \<Rightarrow>
          (case (if purgeable
                 then (case (if length (purgeableClientIDsFIFO smm) =
                                  maxPurgeableSubscriptionManagerClient
                             then purgeOldest smm pathSids nonPathSids
                             else Inr (smm, [])) of
                         Inl err \<Rightarrow> Inl err
                       | Inr (smm1, effs) \<Rightarrow>
                           Inr (smm1\<lparr>purgeableClientIDsFIFO :=
                                       purgeableClientIDsFIFO smm1 @ [cid]\<rparr>, effs))
                 else Inr (smm, [])) of
             Inl err \<Rightarrow> Inl err
           | Inr (smm2, effs) \<Rightarrow>
               let sm = newSubscriptionManager cid (smm_config smm2)
               in Inr (sm,
                       smm2\<lparr>subscriptionManagers := (subscriptionManagers smm2)(cid \<mapsto> sm)\<rparr>,
                       effs)))"

section \<open>Runs of a manager\<close>

text \<open>The calls that change a manager, and a manager after a sequence of them. A
  \<^verbatim>\<open>Shutdown\<close> carries its two \<^verbatim>\<open>range\<close> orders; what is proved of all runs holds whatever
  the lists are.\<close>

datatype call =
    SubscribePath SubscriptionID string PathSubscriptionTopic "int option" SubscriptionNotifier
  | SubscribeNonPath SubscriptionID SubscriptionTopic "int option" SubscriptionNotifier
  | UnsubscribePath SubscriptionID
  | UnsubscribeNonPath SubscriptionID
  | UnsubscribeBoth SubscriptionID
  | ShutdownManager "SubscriptionID list" "SubscriptionID list"

fun perform :: "call \<Rightarrow> subscriptionManager \<Rightarrow> subscriptionManager \<times> effect list" where
  "perform (SubscribePath sid p topic iv notifier) sm =
     snd (subscribePath sm sid p topic iv notifier)"
| "perform (SubscribeNonPath sid topic iv notifier) sm =
     snd (subscribeNonPath sm sid topic iv notifier)"
| "perform (UnsubscribePath sid) sm = unsubscribePath sm sid"
| "perform (UnsubscribeNonPath sid) sm = unsubscribeNonPath sm sid"
| "perform (UnsubscribeBoth sid) sm = Unsubscribe sm sid"
| "perform (ShutdownManager pathSids nonPathSids) sm = Shutdown sm pathSids nonPathSids"

fun run :: "call list \<Rightarrow> subscriptionManager \<times> effect list \<Rightarrow>
    subscriptionManager \<times> effect list" where
  "run [] st = st"
| "run (c # cs) (sm, effs) =
     (let (sm1, e1) = perform c sm in run cs (sm1, effs @ e1))"

definition after :: "Config \<Rightarrow> SubscriptionManagerClientID \<Rightarrow> call list \<Rightarrow> subscriptionManager" where
  "after cfg cid cs = fst (run cs (newSubscriptionManager cid cfg, []))"

definition effectsOf :: "Config \<Rightarrow> SubscriptionManagerClientID \<Rightarrow> call list \<Rightarrow> effect list" where
  "effectsOf cfg cid cs = snd (run cs (newSubscriptionManager cid cfg, []))"


section \<open>Consistency of the indices\<close>

text \<open>
  The manager-local invariants: the two indices of each kind agree, the set of active
  identifiers is the union of the two reverse indices, no identifier is of both kinds,
  and no path bucket is kept empty.
\<close>

definition pathIndexed :: "subscriptionManager \<Rightarrow> bool" where
  "pathIndexed sm =
     (\<forall>sid ref. (pathSubscriptionIDToRef sm sid = Some ref) =
                 (bucket (pathSubscriptions sm) ref sid \<noteq> None))"

definition topicIndexed :: "subscriptionManager \<Rightarrow> bool" where
  "topicIndexed sm =
     (\<forall>sid topic. (nonPathSubscriptionIDToTopic sm sid = Some topic) =
                   (bucket (nonPathSubscriptions sm) topic sid \<noteq> None))"

definition idsTracked :: "subscriptionManager \<Rightarrow> bool" where
  "idsTracked sm =
     (\<forall>sid. isSet (subscriptionIDs sm) sid =
             (pathSubscriptionIDToRef sm sid \<noteq> None \<or>
              nonPathSubscriptionIDToTopic sm sid \<noteq> None))"

definition kindsDisjoint :: "subscriptionManager \<Rightarrow> bool" where
  "kindsDisjoint sm =
     (\<forall>sid. pathSubscriptionIDToRef sm sid = None \<or>
             nonPathSubscriptionIDToTopic sm sid = None)"

definition noEmptyBucket :: "subscriptionManager \<Rightarrow> bool" where
  "noEmptyBucket sm = (\<forall>ref. pathSubscriptions sm ref \<noteq> Some Map.empty)"

definition consistent :: "subscriptionManager \<Rightarrow> bool" where
  "consistent sm =
     (pathIndexed sm \<and> topicIndexed sm \<and> idsTracked sm \<and> kindsDisjoint sm \<and>
      noEmptyBucket sm)"

text \<open>An identifier is active when one of the reverse indices holds it.\<close>

definition active :: "subscriptionManager \<Rightarrow> SubscriptionID \<Rightarrow> bool" where
  "active sm sid =
     (pathSubscriptionIDToRef sm sid \<noteq> None \<or> nonPathSubscriptionIDToTopic sm sid \<noteq> None)"

section \<open>Runs of the registry\<close>

text \<open>
  The registry hands out pointers: what a client does with the manager it got changes
  the manager the registry holds. A request is a \<^verbatim>\<open>get\<close> or a call on the manager that
  is registered for a client.
\<close>

datatype request =
    Get SubscriptionManagerClientID bool "SubscriptionID list" "SubscriptionID list"
  | CallOn SubscriptionManagerClientID call

fun serve :: "request \<Rightarrow> subscriptionManagerManager \<Rightarrow> error + subscriptionManagerManager" where
  "serve (Get cid purgeable pathSids nonPathSids) smm =
     (case get smm cid purgeable pathSids nonPathSids of
        Inl err \<Rightarrow> Inl err
      | Inr (sm, smm1, effs) \<Rightarrow> Inr smm1)"
| "serve (CallOn cid c) smm =
     (case subscriptionManagers smm cid of
        None \<Rightarrow> Inr smm
      | Some sm \<Rightarrow>
          Inr (smm\<lparr>subscriptionManagers :=
                    (subscriptionManagers smm)(cid \<mapsto> fst (perform c sm))\<rparr>))"

fun serveAll ::
  "request list \<Rightarrow> subscriptionManagerManager \<Rightarrow> error + subscriptionManagerManager" where
  "serveAll [] smm = Inr smm"
| "serveAll (r # rs) smm =
     (case serve r smm of Inl err \<Rightarrow> Inl err | Inr smm1 \<Rightarrow> serveAll rs smm1)"

text \<open>The queue holds distinct registered clients, at most three, and every registered
  manager is consistent.\<close>

definition wellQueued :: "subscriptionManagerManager \<Rightarrow> bool" where
  "wellQueued smm =
     (distinct (purgeableClientIDsFIFO smm) \<and>
      set (purgeableClientIDsFIFO smm) \<subseteq> dom (subscriptionManagers smm) \<and>
      length (purgeableClientIDsFIFO smm) \<le> maxPurgeableSubscriptionManagerClient \<and>
      (\<forall>cid sm. subscriptionManagers smm cid = Some sm \<longrightarrow> consistent sm))"

section \<open>What a debounced notifier does\<close>

text \<open>
  \<^verbatim>\<open>debounce\<close> makes a context, a channel \<^verbatim>\<open>ch\<close> of capacity 1 and a limiter of
  burst 1, and starts a goroutine that loops: wait for the limiter, then \<^verbatim>\<open>select\<close>
  between receiving from \<^verbatim>\<open>ch\<close> (and starting the callback) and the cancellation of the
  context. The callers of \<^verbatim>\<open>notify\<close> and \<^verbatim>\<open>shutdown\<close> and this goroutine run
  interleaved, so the notifier is a transition system: a state, and one partial function
  for each step that a party can take. \<open>None\<close> means that the step cannot be taken in
  that state, which for a caller is a blocked call.

  The state: how many values \<^verbatim>\<open>ch\<close> buffers, whether the context is cancelled, where
  the goroutine stands, when the limiter last gave a permission, the time, and the times
  at which \<^verbatim>\<open>go do()\<close> was executed, the latest first. Time is counted in the unit of
  the interval.

  The limiter belongs to \<^verbatim>\<open>golang.org/x/time/rate\<close>, not to the repository. It is a
  token bucket of burst 1: \<^verbatim>\<open>Wait\<close> returns an error when the context is cancelled,
  and otherwise returns as soon as one interval has passed since the permission
  before (at once the first time, and always at rate \<^verbatim>\<open>rate.Inf\<close>).
\<close>

datatype pc = atWait | atSelect | exited

record debounceState =
  st_limit :: Limit
  st_ch :: nat
  st_cancelled :: bool
  st_pc :: pc
  st_last :: "nat option"
  st_now :: nat
  st_calls :: "nat list"

text \<open>The state when \<^verbatim>\<open>debounce\<close> returns: the goroutine is about to call
  \<^verbatim>\<open>limiter.Wait\<close>.\<close>

definition started :: "debouncedNotify \<Rightarrow> debounceState" where
  "started n =
     \<lparr>st_limit = limit n, st_ch = 0, st_cancelled = False, st_pc = atWait, st_last = None,
      st_now = 0, st_calls = []\<rparr>"

text \<open>The closure \<^verbatim>\<open>getChSender\<close> returns, as a step: a send on a full channel blocks; in
  a \<^verbatim>\<open>select\<close> with a \<^verbatim>\<open>default\<close> it is skipped.\<close>

definition getChSender :: "bool \<Rightarrow> debounceState \<Rightarrow> debounceState option" where
  "getChSender blocking s =
     (if blocking
      then (if st_ch s < 1 then Some (s\<lparr>st_ch := st_ch s + 1\<rparr>) else None)
      else (if st_ch s < 1 then Some (s\<lparr>st_ch := st_ch s + 1\<rparr>) else Some s))"

definition notify :: "debounceState \<Rightarrow> debounceState option" where
  "notify s = getChSender (st_limit s = rate_Inf) s"

definition shutdown :: "debounceState \<Rightarrow> debounceState" where
  "shutdown s = s\<lparr>st_cancelled := True\<rparr>"

definition limiterReady :: "debounceState \<Rightarrow> bool" where
  "limiterReady s =
     (case st_limit s of
        rate_Inf \<Rightarrow> True
      | rate_PerInterval d \<Rightarrow>
          (case st_last s of None \<Rightarrow> True | Some t \<Rightarrow> t + d \<le> st_now s))"

text \<open>\<^verbatim>\<open>err := limiter.Wait(ctx)\<close> returns: with an error, and the goroutine returns; or
  with a permission, and the goroutine goes on to the \<^verbatim>\<open>select\<close>.\<close>

definition waitReturns :: "debounceState \<Rightarrow> debounceState option" where
  "waitReturns s =
     (if st_pc s \<noteq> atWait then None
      else if st_cancelled s then Some (s\<lparr>st_pc := exited\<rparr>)
      else if limiterReady s then Some (s\<lparr>st_pc := atSelect, st_last := Some (st_now s)\<rparr>)
      else None)"

text \<open>\<^verbatim>\<open>case <-ch: go do()\<close> and \<^verbatim>\<open>case <-ctx.Done(): return\<close>. When both can proceed
  Go chooses either.\<close>

definition selectReceive :: "debounceState \<Rightarrow> debounceState option" where
  "selectReceive s =
     (if st_pc s = atSelect \<and> 0 < st_ch s
      then Some (s\<lparr>st_ch := st_ch s - 1, st_calls := st_now s # st_calls s, st_pc := atWait\<rparr>)
      else None)"

definition selectDone :: "debounceState \<Rightarrow> debounceState option" where
  "selectDone s =
     (if st_pc s = atSelect \<and> st_cancelled s then Some (s\<lparr>st_pc := exited\<rparr>) else None)"

datatype action = Notify | ShutdownCall | WaitReturns | SelectReceive | SelectDone | Tick nat

fun step :: "action \<Rightarrow> debounceState \<Rightarrow> debounceState option" where
  "step Notify s = notify s"
| "step ShutdownCall s = Some (shutdown s)"
| "step WaitReturns s = waitReturns s"
| "step SelectReceive s = selectReceive s"
| "step SelectDone s = selectDone s"
| "step (Tick n) s = Some (s\<lparr>st_now := st_now s + n\<rparr>)"

text \<open>A schedule is a list of steps; it can be followed when each step can be taken.\<close>

fun steps :: "action list \<Rightarrow> debounceState \<Rightarrow> debounceState option" where
  "steps [] s = Some s"
| "steps (a # as) s = (case step a s of None \<Rightarrow> None | Some s1 \<Rightarrow> steps as s1)"

text \<open>The steps of the goroutine, and how many it can still take once the context is
  cancelled.\<close>

fun isTaskStep :: "action \<Rightarrow> bool" where
  "isTaskStep WaitReturns = True"
| "isTaskStep SelectReceive = True"
| "isTaskStep SelectDone = True"
| "isTaskStep a = False"

fun rank :: "pc \<Rightarrow> nat" where
  "rank exited = 0"
| "rank atWait = 1"
| "rank atSelect = 2"

text \<open>Times of callbacks, the latest first: each is at least \<open>d\<close> after the one two
  before it. \<open>paced\<close> is what holds of every state of a notifier of interval \<open>d\<close>.\<close>

fun spaced :: "nat \<Rightarrow> nat list \<Rightarrow> bool" where
  "spaced d (c # b # a # xs) = (a + d \<le> c \<and> spaced d (b # a # xs))"
| "spaced d xs = True"

definition paced :: "nat \<Rightarrow> debounceState \<Rightarrow> bool" where
  "paced d s =
     (spaced d (st_calls s) \<and> sorted_wrt (\<ge>) (st_calls s) \<and>
      (\<forall>c \<in> set (st_calls s). c \<le> st_now s) \<and> st_ch s \<le> 1 \<and>
      (st_pc s = atSelect \<longrightarrow>
         (\<exists>g. st_last s = Some g \<and> g \<le> st_now s \<and>
              (\<forall>c xs. st_calls s = c # xs \<longrightarrow> c \<le> g) \<and>
              (\<forall>c b xs. st_calls s = c # b # xs \<longrightarrow> b + d \<le> g))) \<and>
      (st_pc s = atWait \<longrightarrow>
         (st_last s = None \<longrightarrow> st_calls s = []) \<and>
         (\<forall>g. st_last s = Some g \<longrightarrow>
              g \<le> st_now s \<and> (\<forall>c b xs. st_calls s = c # b # xs \<longrightarrow> b \<le> g))))"

section \<open>An environment for examples\<close>

text \<open>One container \<open>tlf1\<close>; user paths are taken as paths in it, the empty path does
  not parse, and paths under \<open>/none\<close> name a container that does not exist.\<close>

definition exampleBranch :: FolderBranch where
  "exampleBranch = FolderBranch ''tlf1'' ''master''"

definition exampleConfig :: Config where
  "exampleConfig =
     \<lparr>parsePath = (\<lambda>p. if p = [] then Inl (ResolveError ''empty path'')
                        else Inr \<lparr>rawInTlfPath = p\<rparr>),
      getFolderBranch = (\<lambda>parsed. Inr (if take 5 (rawInTlfPath parsed) = ''/none''
                                        then zeroFolderBranch else exampleBranch)),
      pathClean = (\<lambda>p. p)\<rparr>"

definition treeCalls :: "call list" where
  "treeCalls =
     [SubscribePath ''s1'' ''/a'' 0 None 7, SubscribePath ''s2'' ''/a/b'' 0 None 7,
      SubscribePath ''s3'' ''/a/b/c'' 0 None 7, SubscribePath ''s4'' ''/a/b/c/d'' 0 None 7]"

definition rootCalls :: "call list" where
  "rootCalls = [SubscribePath ''r'' ''/'' 0 None 7, SubscribePath ''s1'' ''/a'' 0 None 7]"

definition mixedCalls :: "call list" where
  "mixedCalls =
     [SubscribePath ''s1'' ''/a'' 0 None 7,
      SubscribeNonPath ''n1'' SubscriptionTopic_OVERALL_SYNC_STATUS None 7,
      SubscribeNonPath ''n2'' SubscriptionTopic_ONLINE_STATUS (Some 100) 7]"

text \<open>Two subscriptions on one path, then both removed.\<close>

definition sameRefCalls :: "call list" where
  "sameRefCalls =
     [SubscribePath ''s1'' ''/a'' 0 None 7, SubscribePath ''s2'' ''/a'' 0 None 7,
      UnsubscribePath ''s1'', UnsubscribePath ''s2'']"

text \<open>The calls to the registrar of the change source among the effects.\<close>

fun isRegistrarCall :: "effect \<Rightarrow> bool" where
  "isRegistrarCall (RegisterForChanges fb) = True"
| "isRegistrarCall (UnregisterFromChanges fb) = True"
| "isRegistrarCall e = False"

text \<open>Three purgeable clients, the first with a subscription, and one that is not
  purgeable.\<close>

definition exampleRequests :: "request list" where
  "exampleRequests =
     [Get ''a'' True [] [], CallOn ''a'' (SubscribePath ''s1'' ''/a'' 0 None 7),
      Get ''b'' True [] [], Get ''c'' True [] [], Get ''e'' False [] []]"

definition exampleRegistry :: subscriptionManagerManager where
  "exampleRegistry =
     \<lparr>smm_config = exampleConfig,
      subscriptionManagers =
        [''a'' \<mapsto> after exampleConfig ''a'' [SubscribePath ''s1'' ''/a'' 0 None 7],
         ''b'' \<mapsto> newSubscriptionManager ''b'' exampleConfig,
         ''c'' \<mapsto> newSubscriptionManager ''c'' exampleConfig,
         ''e'' \<mapsto> newSubscriptionManager ''e'' exampleConfig],
      purgeableClientIDsFIFO = [''a'', ''b'', ''c'']\<rparr>"

text \<open>
  Schedules of a notifier. In \<open>burstSchedule\<close> the goroutine takes its first permission
  at once and then stands at the \<^verbatim>\<open>select\<close>; at time 100 two \<^verbatim>\<open>notify\<close> calls follow
  each other, and the goroutine runs after each. \<open>busySchedule\<close> goes on with three more
  calls after the next permission. In \<open>exitedSchedule\<close> the goroutine sees the
  cancellation before a call.
\<close>

definition exampleNotifier :: "Limit \<Rightarrow> debouncedNotify" where
  "exampleNotifier l = debounce (OnNonPathChange 7 ''gui'' ''n1'' SubscriptionTopic_ONLINE_STATUS) l"

definition burstSchedule :: "action list" where
  "burstSchedule =
     [WaitReturns, Tick 100, Notify, SelectReceive, WaitReturns, Notify, SelectReceive]"

definition busySchedule :: "action list" where
  "busySchedule = burstSchedule @ [Tick 10, WaitReturns, Notify, Notify, Tick 5, Notify]"

definition exitedSchedule :: "action list" where
  "exitedSchedule = [WaitReturns, Notify]"

section \<open>The indices stay consistent\<close>

lemmas consistent_defs = consistent_def pathIndexed_def topicIndexed_def idsTracked_def
  kindsDisjoint_def noEmptyBucket_def

lemma isSet_simps [simp]:
  "isSet Map.empty s = False"
  "isSet (m(k := None)) s = (s \<noteq> k \<and> isSet m s)"
  "isSet (m(k \<mapsto> b)) s = (if s = k then b else isSet m s)"
  by (simp_all add: isSet_def)

lemma bucket_simps [simp]:
  "bucket Map.empty k = Map.empty"
  "bucket (m(k' := None)) k = (if k = k' then Map.empty else bucket m k)"
  "bucket (m(k' \<mapsto> b)) k = (if k = k' then b else bucket m k)"
  by (simp_all add: bucket_def)

lemma consistent_new: "consistent (newSubscriptionManager cid cfg)"
  by (simp add: consistent_defs newSubscriptionManager_def bucket_def isSet_def)

lemma subscribePath_ok:
  assumes "parsePath (config sm) p = Inr parsed"
    and "getFolderBranch (config sm) parsed = Inr fb"
    and "fb \<noteq> zeroFolderBranch"
    and "\<not> isSet (subscriptionIDs sm) sid"
  shows "subscribePath sm sid p topic iv notifier =
     (let ref = \<lparr>folderBranch = fb, path = getCleanInTlfPath (config sm) parsed\<rparr>;
          c = subscriptionCountByFolderBranch sm
      in (None,
       sm\<lparr>subscriptionCountByFolderBranch := c(fb \<mapsto> countOf c fb + 1),
          pathSubscriptions := (pathSubscriptions sm)
             (ref \<mapsto> (bucket (pathSubscriptions sm) ref)
                (sid \<mapsto> debounce (OnPathChange notifier (clientID sm) sid p topic) (limitOf iv))),
          pathSubscriptionIDToRef := (pathSubscriptionIDToRef sm)(sid \<mapsto> ref),
          subscriptionIDs := (subscriptionIDs sm)(sid \<mapsto> True)\<rparr>,
       if countOf c fb = 0 then [RegisterForChanges fb] else []))"
  using assms
  by (simp add: subscribePath_def checkSubscriptionIDLocked_def registerForChangesLocked_def Let_def)

lemma subscribePath_changes:
  "fst (snd (subscribePath sm sid p topic iv notifier)) \<noteq> sm \<Longrightarrow>
   (\<exists>parsed fb. parsePath (config sm) p = Inr parsed \<and> getFolderBranch (config sm) parsed = Inr fb \<and>
     fb \<noteq> zeroFolderBranch \<and> \<not> isSet (subscriptionIDs sm) sid)"
  by (cases "parsePath (config sm) p"; cases "getFolderBranch (config sm) (projr (parsePath (config sm) p))")
     (auto simp: subscribePath_def checkSubscriptionIDLocked_def split: if_splits)

lemma consistent_subscribePath:
  assumes "consistent sm"
  shows "consistent (fst (snd (subscribePath sm sid p topic iv notifier)))"
proof (cases "fst (snd (subscribePath sm sid p topic iv notifier)) = sm")
  case True
  then show ?thesis using assms by simp
next
  case False
  then obtain parsed fb where h: "parsePath (config sm) p = Inr parsed"
    "getFolderBranch (config sm) parsed = Inr fb" "fb \<noteq> zeroFolderBranch"
    "\<not> isSet (subscriptionIDs sm) sid"
    using subscribePath_changes by blast
  from assms h(4) have fresh: "pathSubscriptionIDToRef sm sid = None"
    "nonPathSubscriptionIDToTopic sm sid = None"
    unfolding consistent_defs by blast+
  from assms fresh(1) have nowhere: "bucket (pathSubscriptions sm) r sid = None" for r
    unfolding consistent_defs by (metis option.distinct(1))
  show ?thesis
    using assms fresh nowhere
    unfolding subscribePath_ok[OF h] Let_def
    by (auto simp: consistent_defs bucket_def isSet_def split: option.splits if_splits)
qed

lemma consistent_subscribeNonPath:
  assumes "consistent sm"
  shows "consistent (fst (snd (subscribeNonPath sm sid topic iv notifier)))"
proof (cases "isSet (subscriptionIDs sm) sid")
  case True
  then show ?thesis using assms
    by (simp add: subscribeNonPath_def checkSubscriptionIDLocked_def)
next
  case False
  with assms have fresh: "pathSubscriptionIDToRef sm sid = None"
    "nonPathSubscriptionIDToTopic sm sid = None"
    unfolding consistent_defs by blast+
  from assms fresh(2) have nowhere: "bucket (nonPathSubscriptions sm) t sid = None" for t
    unfolding consistent_defs by (metis option.distinct(1))
  show ?thesis
    using assms fresh nowhere False
    by (auto simp: subscribeNonPath_def checkSubscriptionIDLocked_def Let_def
        consistent_defs bucket_def isSet_def split: option.splits if_splits)
qed

lemma unregister_fields [simp]:
  "pathSubscriptions (fst (unregisterForChangesLocked sm fb)) = pathSubscriptions sm"
  "pathSubscriptionIDToRef (fst (unregisterForChangesLocked sm fb)) = pathSubscriptionIDToRef sm"
  "nonPathSubscriptions (fst (unregisterForChangesLocked sm fb)) = nonPathSubscriptions sm"
  "nonPathSubscriptionIDToTopic (fst (unregisterForChangesLocked sm fb)) =
     nonPathSubscriptionIDToTopic sm"
  "subscriptionIDs (fst (unregisterForChangesLocked sm fb)) = subscriptionIDs sm"
  "clientID (fst (unregisterForChangesLocked sm fb)) = clientID sm"
  "config (fst (unregisterForChangesLocked sm fb)) = config sm"
  by (simp_all add: unregisterForChangesLocked_def Let_def)

lemma unsubscribePath_found:
  assumes "pathSubscriptionIDToRef sm sid = Some ref"
    and "pathSubscriptions sm ref = Some subs"
    and "subs sid = Some n"
  shows "unsubscribePath sm sid =
     (if dom subs = {sid}
      then (fst (unregisterForChangesLocked sm (folderBranch ref))
              \<lparr>pathSubscriptions := (pathSubscriptions sm)(ref := None),
               pathSubscriptionIDToRef := (pathSubscriptionIDToRef sm)(sid := None),
               subscriptionIDs := (subscriptionIDs sm)(sid := None)\<rparr>,
            shutdownCall n # snd (unregisterForChangesLocked sm (folderBranch ref)))
      else (sm\<lparr>pathSubscriptions := (pathSubscriptions sm)(ref \<mapsto> subs(sid := None)),
               pathSubscriptionIDToRef := (pathSubscriptionIDToRef sm)(sid := None),
               subscriptionIDs := (subscriptionIDs sm)(sid := None)\<rparr>,
            [shutdownCall n]))"
proof -
  from assms(3) have e: "(dom (subs(sid := None)) = {}) = (dom subs = {sid})"
    by auto
  show ?thesis
  proof (cases "dom subs = {sid}")
    case True
    with e have "dom (subs(sid := None)) = {}" by blast
    with assms True show ?thesis
      by (simp add: unsubscribePath_def bucket_def Let_def unregisterForChangesLocked_def
          del: dom_fun_upd dom_eq_empty_conv)
  next
    case False
    with e have "dom (subs(sid := None)) \<noteq> {}" by blast
    with assms False show ?thesis
      by (simp add: unsubscribePath_def bucket_def Let_def
          del: dom_fun_upd dom_eq_empty_conv)
  qed
qed

lemma consistent_unsubscribePath:
  assumes c: "consistent sm"
  shows "consistent (fst (unsubscribePath sm sid))"
proof (cases "pathSubscriptionIDToRef sm sid")
  case None
  then show ?thesis using c by (simp add: unsubscribePath_def)
next
  case (Some ref)
  have pidx: "(pathSubscriptionIDToRef sm s = Some r) =
      (bucket (pathSubscriptions sm) r s \<noteq> None)" for s r
    using c by (simp add: consistent_defs)
  have tidx: "(nonPathSubscriptionIDToTopic sm s = Some t) =
      (bucket (nonPathSubscriptions sm) t s \<noteq> None)" for s t
    using c by (simp add: consistent_defs)
  have ids: "isSet (subscriptionIDs sm) s =
      (pathSubscriptionIDToRef sm s \<noteq> None \<or> nonPathSubscriptionIDToTopic sm s \<noteq> None)" for s
    using c by (simp add: consistent_defs)
  have disj: "pathSubscriptionIDToRef sm s = None \<or> nonPathSubscriptionIDToTopic sm s = None" for s
    using c by (simp add: consistent_defs)
  have ne: "pathSubscriptions sm r \<noteq> Some Map.empty" for r
    using c by (simp add: consistent_defs)
  from Some pidx[of sid ref] obtain subs n where
    f: "pathSubscriptions sm ref = Some subs" "subs sid = Some n"
    by (auto simp: bucket_def split: option.splits)
  have np: "nonPathSubscriptionIDToTopic sm sid = None"
    using disj[of sid] Some by simp
  have elsewhere: "bucket (pathSubscriptions sm) r sid = None" if "r \<noteq> ref" for r
    using pidx[of sid r] Some that by auto
  define sm' where "sm' = fst (unsubscribePath sm sid)"
  have 1: "pathSubscriptionIDToRef sm' = (pathSubscriptionIDToRef sm)(sid := None)"
    and 3: "subscriptionIDs sm' = (subscriptionIDs sm)(sid := None)"
    and 4: "nonPathSubscriptions sm' = nonPathSubscriptions sm"
    and 5: "nonPathSubscriptionIDToTopic sm' = nonPathSubscriptionIDToTopic sm"
    and ps: "pathSubscriptions sm' =
       (if dom subs = {sid} then (pathSubscriptions sm)(ref := None)
        else (pathSubscriptions sm)(ref \<mapsto> subs(sid := None)))"
    unfolding sm'_def unsubscribePath_found[OF Some f] by simp_all
  have 2: "bucket (pathSubscriptions sm') r = (bucket (pathSubscriptions sm) r)(sid := None)" for r
  proof (cases "r = ref")
    case True
    then show ?thesis using f
      by (auto simp: ps bucket_def fun_eq_iff domIff)
  next
    case False
    with elsewhere[OF False] show ?thesis
      by (auto simp: ps bucket_def fun_eq_iff)
  qed
  have 6: "pathSubscriptions sm' r \<noteq> Some Map.empty" for r
    using ne[of r] f by (auto simp: ps fun_eq_iff domIff split: if_splits)
  have "pathIndexed sm'"
    unfolding pathIndexed_def by (simp add: 1 2 pidx)
  moreover have "topicIndexed sm'"
    unfolding topicIndexed_def by (simp add: 4 5 tidx)
  moreover have "idsTracked sm'"
    unfolding idsTracked_def using np by (simp add: 1 3 5 ids)
  moreover have "kindsDisjoint sm'"
    unfolding kindsDisjoint_def using disj by (simp add: 1 5)
  moreover have "noEmptyBucket sm'"
    unfolding noEmptyBucket_def using 6 by simp
  ultimately show ?thesis
    unfolding sm'_def consistent_def by simp
qed


lemma unsubscribeNonPath_found:
  assumes "nonPathSubscriptionIDToTopic sm sid = Some topic"
    and "nonPathSubscriptions sm topic = Some subs"
    and "subs sid = Some n"
  shows "unsubscribeNonPath sm sid =
     (sm\<lparr>nonPathSubscriptions := (nonPathSubscriptions sm)(topic \<mapsto> subs(sid := None)),
         nonPathSubscriptionIDToTopic := (nonPathSubscriptionIDToTopic sm)(sid := None),
         subscriptionIDs := (subscriptionIDs sm)(sid := None)\<rparr>,
      [shutdownCall n])"
  using assms by (simp add: unsubscribeNonPath_def Let_def)

lemma consistent_unsubscribeNonPath:
  assumes c: "consistent sm"
  shows "consistent (fst (unsubscribeNonPath sm sid))"
proof (cases "nonPathSubscriptionIDToTopic sm sid")
  case None
  then show ?thesis using c by (simp add: unsubscribeNonPath_def)
next
  case (Some topic)
  have pidx: "(pathSubscriptionIDToRef sm s = Some r) =
      (bucket (pathSubscriptions sm) r s \<noteq> None)" for s r
    using c by (simp add: consistent_defs)
  have tidx: "(nonPathSubscriptionIDToTopic sm s = Some t) =
      (bucket (nonPathSubscriptions sm) t s \<noteq> None)" for s t
    using c by (simp add: consistent_defs)
  have ids: "isSet (subscriptionIDs sm) s =
      (pathSubscriptionIDToRef sm s \<noteq> None \<or> nonPathSubscriptionIDToTopic sm s \<noteq> None)" for s
    using c by (simp add: consistent_defs)
  have disj: "pathSubscriptionIDToRef sm s = None \<or> nonPathSubscriptionIDToTopic sm s = None" for s
    using c by (simp add: consistent_defs)
  have ne: "pathSubscriptions sm r \<noteq> Some Map.empty" for r
    using c by (simp add: consistent_defs)
  from Some tidx[of sid topic] obtain subs n where
    f: "nonPathSubscriptions sm topic = Some subs" "subs sid = Some n"
    by (auto simp: bucket_def split: option.splits)
  have np: "pathSubscriptionIDToRef sm sid = None"
    using disj[of sid] Some by simp
  have elsewhere: "bucket (nonPathSubscriptions sm) t sid = None" if "t \<noteq> topic" for t
    using tidx[of sid t] Some that by auto
  define sm' where "sm' = fst (unsubscribeNonPath sm sid)"
  have 1: "nonPathSubscriptionIDToTopic sm' = (nonPathSubscriptionIDToTopic sm)(sid := None)"
    and 3: "subscriptionIDs sm' = (subscriptionIDs sm)(sid := None)"
    and 4: "pathSubscriptions sm' = pathSubscriptions sm"
    and 5: "pathSubscriptionIDToRef sm' = pathSubscriptionIDToRef sm"
    and ps: "nonPathSubscriptions sm' =
       (nonPathSubscriptions sm)(topic \<mapsto> subs(sid := None))"
    unfolding sm'_def unsubscribeNonPath_found[OF Some f] by simp_all
  have 2: "bucket (nonPathSubscriptions sm') t = (bucket (nonPathSubscriptions sm) t)(sid := None)"
    for t
  proof (cases "t = topic")
    case True
    then show ?thesis using f by (simp add: ps bucket_def)
  next
    case False
    with elsewhere[OF False] show ?thesis
      by (auto simp: ps fun_eq_iff)
  qed
  have "pathIndexed sm'"
    unfolding pathIndexed_def by (simp add: 4 5 pidx)
  moreover have "topicIndexed sm'"
    unfolding topicIndexed_def by (simp add: 1 2 tidx)
  moreover have "idsTracked sm'"
    unfolding idsTracked_def using np by (simp add: 1 3 5 ids)
  moreover have "kindsDisjoint sm'"
    unfolding kindsDisjoint_def using disj by (simp add: 1 5)
  moreover have "noEmptyBucket sm'"
    unfolding noEmptyBucket_def using ne by (simp add: 4)
  ultimately show ?thesis
    unfolding sm'_def consistent_def by simp
qed

lemma consistent_Unsubscribe:
  "consistent sm \<Longrightarrow> consistent (fst (Unsubscribe sm sid))"
  using consistent_unsubscribeNonPath[OF consistent_unsubscribePath, of sm sid sid]
  by (simp add: Unsubscribe_def split_beta)

lemma consistent_unsubscribeAll:
  assumes "\<And>s sid. consistent s \<Longrightarrow> consistent (fst (unsub s sid))"
  shows "consistent sm \<Longrightarrow> consistent (fst (unsubscribeAll unsub sids sm))"
proof (induction sids arbitrary: sm)
  case Nil
  then show ?case by simp
next
  case (Cons sid sids)
  from assms[OF Cons.prems, of sid] Cons.IH[of "fst (unsub sm sid)"]
  show ?case by (simp add: split_beta)
qed

lemma consistent_Shutdown:
  assumes "consistent sm"
  shows "consistent (fst (Shutdown sm pathSids nonPathSids))"
proof -
  have "consistent (fst (unsubscribeAll unsubscribePath pathSids sm))"
    by (rule consistent_unsubscribeAll[where unsub = unsubscribePath])
       (simp_all add: consistent_unsubscribePath assms)
  then have "consistent (fst (unsubscribeAll unsubscribeNonPath nonPathSids
      (fst (unsubscribeAll unsubscribePath pathSids sm))))"
    by (intro consistent_unsubscribeAll[where unsub = unsubscribeNonPath])
       (simp_all add: consistent_unsubscribeNonPath)
  then show ?thesis by (simp add: Shutdown_def split_beta)
qed

lemma consistent_perform: "consistent sm \<Longrightarrow> consistent (fst (perform c sm))"
  by (cases c)
     (simp_all add: consistent_subscribePath consistent_subscribeNonPath
       consistent_unsubscribePath consistent_unsubscribeNonPath consistent_Unsubscribe
       consistent_Shutdown)

lemma consistent_run: "consistent (fst st) \<Longrightarrow> consistent (fst (run cs st))"
proof (induction cs arbitrary: st)
  case Nil
  then show ?case by simp
next
  case (Cons c cs)
  obtain sm effs where st: "st = (sm, effs)" by (cases st)
  with Cons.prems have "consistent (fst (perform c sm))"
    by (simp add: consistent_perform)
  then have "consistent (fst (run cs (fst (perform c sm), effs @ snd (perform c sm))))"
    by (intro Cons.IH) simp
  then show ?case by (simp add: st split_beta)
qed

lemma consistent_after: "consistent (after cfg cid cs)"
  unfolding after_def by (rule consistent_run) (simp add: consistent_new)

section \<open>Pacing of the callbacks\<close>

lemmas step_defs = notify_def getChSender_def shutdown_def waitReturns_def selectReceive_def
  selectDone_def limiterReady_def

lemma paced_started: "paced d (started n)"
  by (simp add: paced_def started_def)

lemma paced_step:
  assumes "paced d s" "st_limit s = rate_PerInterval d" "step a s = Some s'"
  shows "paced d s' \<and> st_limit s' = rate_PerInterval d"
proof (cases a)
  case Notify
  with assms show ?thesis by (auto simp: step_defs paced_def split: if_splits)
next
  case ShutdownCall
  with assms show ?thesis by (auto simp: step_defs paced_def split: if_splits)
next
  case WaitReturns
  with assms show ?thesis
    by (auto simp: step_defs paced_def split: if_splits option.splits)
next
  case SelectReceive
  with assms show ?thesis
    apply (auto simp: step_defs paced_def split: if_splits option.splits)
    apply (cases "st_calls s"; simp)
    subgoal for g x xs by (cases xs; simp)
    done
next
  case SelectDone
  with assms show ?thesis by (auto simp: step_defs paced_def split: if_splits)
next
  case (Tick n)
  with assms show ?thesis
    by (fastforce simp: paced_def split: option.splits)
qed

lemma paced_steps:
  assumes "paced d s" "st_limit s = rate_PerInterval d" "steps as s = Some s'"
  shows "paced d s' \<and> st_limit s' = rate_PerInterval d"
  using assms
proof (induction as arbitrary: s)
  case Nil
  then show ?case by simp
next
  case (Cons a as)
  from Cons.prems(3) obtain s1 where s1: "step a s = Some s1" "steps as s1 = Some s'"
    by (auto split: option.splits)
  from paced_step[OF Cons.prems(1,2) s1(1)] Cons.IH[OF _ _ s1(2)] show ?case by blast
qed

lemma spaced_tail: "spaced d (x # xs) \<Longrightarrow> spaced d xs"
  by (cases xs; cases "tl xs") auto

lemma window_empty_below:
  fixes a t d :: nat
  assumes "sorted_wrt (\<ge>) (a # xs)" "a < t"
  shows "filter (\<lambda>c. t \<le> c \<and> c < t + d) (a # xs) = []"
  using assms by (fastforce simp: filter_empty_conv)

lemma window_at_most_two:
  fixes t d :: nat
  assumes "sorted_wrt (\<ge>) xs" "spaced d xs"
  shows "length (filter (\<lambda>c. t \<le> c \<and> c < t + d) xs) \<le> 2"
  using assms
proof (induction xs)
  case Nil
  then show ?case by simp
next
  case (Cons c xs)
  then have ih: "length (filter (\<lambda>c. t \<le> c \<and> c < t + d) xs) \<le> 2"
    using spaced_tail by auto
  show ?case
  proof (cases "t \<le> c \<and> c < t + d")
    case False
    with ih show ?thesis by auto
  next
    case True
    show ?thesis
    proof (cases xs)
      case Nil
      then show ?thesis by simp
    next
      case (Cons b ys)
      show ?thesis
      proof (cases ys)
        case Nil
        with Cons show ?thesis by simp
      next
        case (Cons a zs)
        with \<open>xs = b # ys\<close> Cons.prems True have "a < t" by auto
        moreover from \<open>xs = b # ys\<close> Cons Cons.prems have "sorted_wrt (\<ge>) (a # zs)" by auto
        ultimately have "filter (\<lambda>c. t \<le> c \<and> c < t + d) (a # zs) = []"
          by (rule window_empty_below[rotated])
        with \<open>xs = b # ys\<close> Cons show ?thesis by simp
      qed
    qed
  qed
qed

section \<open>Claims about single calls\<close>

lemmas example_defs = exampleConfig_def exampleBranch_def zeroFolderBranch_def
  newSubscriptionManager_def after_def effectsOf_def

lemmas manager_defs = subscribePath_def subscribeNonPath_def unsubscribePath_def
  unsubscribeNonPath_def Unsubscribe_def checkSubscriptionIDLocked_def
  registerForChangesLocked_def unregisterForChangesLocked_def getCleanInTlfPath_def
  debounce_def limitOf_def rate_Every_def countOf_def Let_def

lemma unsubscribePath_clears:
  "pathSubscriptionIDToRef (fst (unsubscribePath sm sid)) sid = None"
  by (cases "pathSubscriptionIDToRef sm sid")
     (auto simp: unsubscribePath_def Let_def unregisterForChangesLocked_def split_beta
       split: option.splits)

lemma unsubscribeNonPath_clears:
  "nonPathSubscriptionIDToTopic (fst (unsubscribeNonPath sm sid)) sid = None"
  by (cases "nonPathSubscriptionIDToTopic sm sid")
     (auto simp: unsubscribeNonPath_def Let_def split_beta split: option.splits)

lemma unsubscribeNonPath_keeps_path [simp]:
  "pathSubscriptionIDToRef (fst (unsubscribeNonPath sm sid)) = pathSubscriptionIDToRef sm"
  by (auto simp: unsubscribeNonPath_def Let_def split_beta split: option.splits)

lemma unsubscribePath_noop:
  "pathSubscriptionIDToRef sm sid = None \<Longrightarrow> unsubscribePath sm sid = (sm, [])"
  by (simp add: unsubscribePath_def)

lemma unsubscribeNonPath_noop:
  "nonPathSubscriptionIDToTopic sm sid = None \<Longrightarrow> unsubscribeNonPath sm sid = (sm, [])"
  by (simp add: unsubscribeNonPath_def)

text \<open>
  C9. Unsubscribing an identifier that the relevant index does not hold (never
  subscribed, or already removed) does nothing: \<^verbatim>\<open>unsubscribePath\<close>,
  \<^verbatim>\<open>unsubscribeNonPath\<close> and the facade \<^verbatim>\<open>Unsubscribe\<close> return the manager as it was
  and call nothing (the functions have no error result). A second unsubscription of the
  same identifier is therefore always such a no-op.
\<close>

theorem unsubscribe_inactive_noop:
  "(pathSubscriptionIDToRef sm sid = None \<longrightarrow> unsubscribePath sm sid = (sm, [])) \<and>
   (nonPathSubscriptionIDToTopic sm sid = None \<longrightarrow> unsubscribeNonPath sm sid = (sm, [])) \<and>
   (pathSubscriptionIDToRef sm sid = None \<and> nonPathSubscriptionIDToTopic sm sid = None \<longrightarrow>
      Unsubscribe sm sid = (sm, [])) \<and>
   unsubscribePath (fst (unsubscribePath sm sid)) sid = (fst (unsubscribePath sm sid), []) \<and>
   unsubscribeNonPath (fst (unsubscribeNonPath sm sid)) sid =
     (fst (unsubscribeNonPath sm sid), []) \<and>
   Unsubscribe (fst (Unsubscribe sm sid)) sid = (fst (Unsubscribe sm sid), [])"
proof -
  have both: "Unsubscribe s sid = (s, [])"
    if "pathSubscriptionIDToRef s sid = None" "nonPathSubscriptionIDToTopic s sid = None" for s
    using that by (simp add: Unsubscribe_def unsubscribePath_noop unsubscribeNonPath_noop)
  have "pathSubscriptionIDToRef (fst (Unsubscribe sm sid)) sid = None"
    by (simp add: Unsubscribe_def split_beta unsubscribePath_clears)
  moreover have "nonPathSubscriptionIDToTopic (fst (Unsubscribe sm sid)) sid = None"
    by (simp add: Unsubscribe_def split_beta unsubscribeNonPath_clears)
  ultimately have "Unsubscribe (fst (Unsubscribe sm sid)) sid = (fst (Unsubscribe sm sid), [])"
    by (rule both)
  then show ?thesis
    using both[of sm]
    by (simp add: unsubscribePath_noop unsubscribeNonPath_noop unsubscribePath_clears
        unsubscribeNonPath_clears)
qed

theorem unsubscribe_inactive_noop_witness:
  "pathSubscriptionIDToRef
     (after exampleConfig ''gui'' [SubscribePath ''s1'' ''/a'' 0 None 7]) ''s2'' = None \<and>
   nonPathSubscriptionIDToTopic
     (after exampleConfig ''gui'' [SubscribePath ''s1'' ''/a'' 0 None 7]) ''s2'' = None \<and>
   unsubscribePath (after exampleConfig ''gui'' [SubscribePath ''s1'' ''/a'' 0 None 7]) ''s2'' =
     (after exampleConfig ''gui'' [SubscribePath ''s1'' ''/a'' 0 None 7], []) \<and>
   unsubscribeNonPath (after exampleConfig ''gui'' [SubscribePath ''s1'' ''/a'' 0 None 7]) ''s2'' =
     (after exampleConfig ''gui'' [SubscribePath ''s1'' ''/a'' 0 None 7], []) \<and>
   Unsubscribe (after exampleConfig ''gui'' [SubscribePath ''s1'' ''/a'' 0 None 7]) ''s2'' =
     (after exampleConfig ''gui'' [SubscribePath ''s1'' ''/a'' 0 None 7], [])"
proof -
  have h: "pathSubscriptionIDToRef
       (after exampleConfig ''gui'' [SubscribePath ''s1'' ''/a'' 0 None 7]) ''s2'' = None"
      "nonPathSubscriptionIDToTopic
       (after exampleConfig ''gui'' [SubscribePath ''s1'' ''/a'' 0 None 7]) ''s2'' = None"
    by (simp_all add: example_defs manager_defs)
  show ?thesis
    using h unsubscribe_inactive_noop
      [of "after exampleConfig ''gui'' [SubscribePath ''s1'' ''/a'' 0 None 7]" "''s2''"]
    by simp
qed

text \<open>
  C8. When the path of a \<^verbatim>\<open>SubscribePath\<close> call resolves to the zero
  \<^verbatim>\<open>FolderBranch\<close>, the call returns no error, the manager is unchanged (no subscription,
  the identifier as inactive as before, the same reference counts) and nothing is
  registered.
\<close>

theorem subscribePath_unresolved_noop:
  assumes "parsePath (config sm) p = Inr parsed"
    and "getFolderBranch (config sm) parsed = Inr zeroFolderBranch"
  shows "subscribePath sm sid p topic deduplicateInterval notifier = (None, sm, [])"
  using assms by (simp add: subscribePath_def)

theorem subscribePath_unresolved_noop_witness:
  "parsePath (config (newSubscriptionManager ''gui'' exampleConfig)) ''/none/x'' =
     Inr \<lparr>rawInTlfPath = ''/none/x''\<rparr> \<and>
   getFolderBranch (config (newSubscriptionManager ''gui'' exampleConfig))
     \<lparr>rawInTlfPath = ''/none/x''\<rparr> = Inr zeroFolderBranch \<and>
   subscribePath (newSubscriptionManager ''gui'' exampleConfig) ''s1'' ''/none/x'' 0 None 7 =
     (None, newSubscriptionManager ''gui'' exampleConfig, [])"
proof -
  have h: "parsePath (config (newSubscriptionManager ''gui'' exampleConfig)) ''/none/x'' =
     Inr \<lparr>rawInTlfPath = ''/none/x''\<rparr>"
    "getFolderBranch (config (newSubscriptionManager ''gui'' exampleConfig))
     \<lparr>rawInTlfPath = ''/none/x''\<rparr> = Inr zeroFolderBranch"
    by (simp_all add: example_defs)
  show ?thesis
    using h subscribePath_unresolved_noop[OF h, of "''s1''" 0 None 7] by simp
qed

section \<open>Parent paths\<close>

lemma LastIndex_absent: "c \<notin> set xs \<Longrightarrow> LastIndex xs c = -1"
  by (induction xs) (auto simp: Let_def)

lemma LastIndex_append:
  "c \<notin> set ys \<Longrightarrow> LastIndex (xs @ c # ys) c = int (length xs)"
  by (induction xs) (auto simp: Let_def LastIndex_absent)

lemma LastIndex_range: "-1 \<le> LastIndex xs c \<and> LastIndex xs c < int (length xs)"
  by (induction xs) (auto simp: Let_def)

lemma LastIndex_hit: "0 \<le> LastIndex xs c \<Longrightarrow> xs ! nat (LastIndex xs c) = c"
proof (induction xs)
  case Nil
  then show ?case by simp
next
  case (Cons x xs)
  then show ?case
    by (auto simp: Let_def nat_add_distrib split: if_splits)
qed

lemma getParentPath_child:
  assumes "d \<noteq> []" "CHR ''/'' \<notin> set name"
  shows "getParentPath (d @ CHR ''/'' # name) = Some d"
  using assms by (simp add: getParentPath_def LastIndex_append)

lemma getParentPath_top:
  assumes "CHR ''/'' \<notin> set name"
  shows "getParentPath (CHR ''/'' # name) = None"
  using assms LastIndex_append[of "CHR ''/''" name "[]"] by (simp add: getParentPath_def)

lemma getParentPath_shorter: "getParentPath p = Some q \<Longrightarrow> length q < length p"
  using LastIndex_range[of p "CHR ''/''"]
  by (auto simp: getParentPath_def Let_def split: if_splits)

lemma parent_root_double_slash:
  assumes "getParentPath p = Some ''/''"
  shows "take 2 p = ''//''"
proof -
  let ?i = "LastIndex p CHR ''/''"
  from assms have pos: "0 < ?i" and tk: "take (nat ?i) p = ''/''"
    by (auto simp: getParentPath_def Let_def split: if_splits)
  from LastIndex_range[of p "CHR ''/''"] have lt: "nat ?i < length p"
    using pos by auto
  from tk have "length (take (nat ?i) p) = 1" by simp
  with lt have i1: "nat ?i = 1" by simp
  from LastIndex_hit[of p "CHR ''/''"] pos i1 have p1: "p ! 1 = CHR ''/''" by simp
  have "take (nat ?i) p ! 0 = p ! 0" using i1 by simp
  with tk have p0: "p ! 0 = CHR ''/''" by simp
  from lt i1 have "2 \<le> length p" by simp
  then obtain a b rest where "p = a # b # rest"
    by (cases p; cases "tl p") simp_all
  with p0 p1 show ?thesis by simp
qed

section \<open>Who is notified\<close>

lemma sidOf_notifyRef:
  "sidOf ` notifyRef sm ref = dom (bucket (pathSubscriptions sm) ref)"
  by (force simp: notifyRef_def bucket_def graph_def image_iff split: option.splits)

lemma sidOf_notifyTopic:
  "sidOf ` notifyTopic sm topic = dom (bucket (nonPathSubscriptions sm) topic)"
  by (force simp: notifyTopic_def bucket_def graph_def image_iff split: option.splits)

lemma keyed_path:
  "consistent sm \<Longrightarrow>
   dom (bucket (pathSubscriptions sm) ref) = {sid. pathSubscriptionIDToRef sm sid = Some ref}"
  by (auto simp: consistent_defs)

lemma keyed_topic:
  "consistent sm \<Longrightarrow>
   dom (bucket (nonPathSubscriptions sm) topic) =
     {sid. nonPathSubscriptionIDToTopic sm sid = Some topic}"
  by (auto simp: consistent_defs)

lemma notifyRef_inj:
  assumes "consistent sm"
  shows "inj_on sidOf (notifyRef sm r1 \<union> notifyRef sm r2)"
proof (rule inj_onI)
  fix x y
  assume x: "x \<in> notifyRef sm r1 \<union> notifyRef sm r2"
    and y: "y \<in> notifyRef sm r1 \<union> notifyRef sm r2" and e: "sidOf x = sidOf y"
  from x obtain rx nx where dx: "x = pathNotify rx (sidOf x) nx"
      "bucket (pathSubscriptions sm) rx (sidOf x) = Some nx"
    by (auto simp: notifyRef_def bucket_def graph_def split: option.splits)
  from y obtain ry ny where dy: "y = pathNotify ry (sidOf y) ny"
      "bucket (pathSubscriptions sm) ry (sidOf y) = Some ny"
    by (auto simp: notifyRef_def bucket_def graph_def split: option.splits)
  from assms dx(2) have "pathSubscriptionIDToRef sm (sidOf x) = Some rx"
    by (simp add: consistent_defs)
  moreover from assms dy(2) e have "pathSubscriptionIDToRef sm (sidOf x) = Some ry"
    by (simp add: consistent_defs)
  ultimately have "rx = ry" by simp
  with dx dy e show "x = y" by simp
qed

lemma config_subscribePath [simp]:
  "config (fst (snd (subscribePath sm sid p topic iv notifier))) = config sm"
  by (cases "parsePath (config sm) p";
      cases "getFolderBranch (config sm) (projr (parsePath (config sm) p))")
     (auto simp: subscribePath_def checkSubscriptionIDLocked_def registerForChangesLocked_def
       Let_def)

lemma config_subscribeNonPath [simp]:
  "config (fst (snd (subscribeNonPath sm sid topic iv notifier))) = config sm"
  by (auto simp: subscribeNonPath_def checkSubscriptionIDLocked_def Let_def)

lemma config_unsubscribePath [simp]: "config (fst (unsubscribePath sm sid)) = config sm"
  by (auto simp: unsubscribePath_def unregisterForChangesLocked_def Let_def split_beta
      split: option.splits)

lemma config_unsubscribeNonPath [simp]: "config (fst (unsubscribeNonPath sm sid)) = config sm"
  by (auto simp: unsubscribeNonPath_def Let_def split_beta split: option.splits)

lemma config_unsubscribeAll:
  assumes "\<And>s sid. config (fst (unsub s sid)) = config s"
  shows "config (fst (unsubscribeAll unsub sids sm)) = config sm"
  by (induction sids arbitrary: sm) (simp_all add: split_beta assms)

lemma config_perform [simp]: "config (fst (perform c sm)) = config sm"
  by (cases c)
     (simp_all add: Unsubscribe_def Shutdown_def split_beta config_unsubscribeAll)

lemma config_run: "config (fst (run cs st)) = config (fst st)"
proof (induction cs arbitrary: st)
  case Nil
  then show ?case by simp
next
  case (Cons c cs)
  obtain sm effs where st: "st = (sm, effs)" by (cases st)
  show ?case using Cons.IH[of "(fst (perform c sm), effs @ snd (perform c sm))"]
    by (simp add: st split_beta)
qed

lemma config_after [simp]: "config (after cfg cid cs) = cfg"
  by (simp add: after_def config_run newSubscriptionManager_def)

lemma active_isSet: "consistent sm \<Longrightarrow> isSet (subscriptionIDs sm) sid = active sm sid"
  by (simp add: consistent_defs active_def)

text \<open>
  C3, as the code has it. After any sequence of calls, a change event with container
  branch \<open>fb\<close> and in-container path \<open>p\<close> calls \<^verbatim>\<open>notify\<close> for exactly the path
  subscriptions whose key is \<open>(fb, p)\<close> or \<open>(fb, parent)\<close>, where \<open>parent\<close> is what
  \<^verbatim>\<open>getParentPath\<close> gives for \<open>p\<close>, and calls it once for each of them. Subscriptions
  keyed by any other path (the grandparent, a descendant) are not notified.
  \<^verbatim>\<open>getParentPath\<close> gives the directory \<open>d\<close> for its direct child \<open>d/name\<close>, and no
  parent for a top-level path \<open>/name\<close>.
\<close>

theorem nodeChange_notifies_path_and_parent:
  "sidOf ` nodeChangeLocked (after cfg cid cs)
              \<lparr>GetPathPlaintextSansTlf = Some p, GetFolderBranch = fb\<rparr> =
     {sid. pathSubscriptionIDToRef (after cfg cid cs) sid =
             Some \<lparr>folderBranch = fb, path = p\<rparr>} \<union>
     {sid. \<exists>parent. getParentPath p = Some parent \<and>
             pathSubscriptionIDToRef (after cfg cid cs) sid =
               Some \<lparr>folderBranch = fb, path = parent\<rparr>} \<and>
   inj_on sidOf (nodeChangeLocked (after cfg cid cs)
                   \<lparr>GetPathPlaintextSansTlf = Some p, GetFolderBranch = fb\<rparr>) \<and>
   (CHR ''/'' \<notin> set name \<longrightarrow>
      getParentPath (CHR ''/'' # name) = None \<and>
      (d \<noteq> [] \<longrightarrow> getParentPath (d @ CHR ''/'' # name) = Some d))"
proof -
  have "inj_on sidOf (nodeChangeLocked (after cfg cid cs)
                   \<lparr>GetPathPlaintextSansTlf = Some p, GetFolderBranch = fb\<rparr>)"
  proof (cases "getParentPath p")
    case None
    then show ?thesis
      using notifyRef_inj[OF consistent_after, of cfg cid cs
          "\<lparr>folderBranch = fb, path = p\<rparr>" "\<lparr>folderBranch = fb, path = p\<rparr>"]
      by (simp add: nodeChangeLocked_def)
  next
    case (Some parent)
    then show ?thesis
      using notifyRef_inj[OF consistent_after, of cfg cid cs
          "\<lparr>folderBranch = fb, path = p\<rparr>" "\<lparr>folderBranch = fb, path = parent\<rparr>"]
      by (simp add: nodeChangeLocked_def)
  qed
  moreover have "sidOf ` nodeChangeLocked (after cfg cid cs)
              \<lparr>GetPathPlaintextSansTlf = Some p, GetFolderBranch = fb\<rparr> =
     {sid. pathSubscriptionIDToRef (after cfg cid cs) sid =
             Some \<lparr>folderBranch = fb, path = p\<rparr>} \<union>
     {sid. \<exists>parent. getParentPath p = Some parent \<and>
             pathSubscriptionIDToRef (after cfg cid cs) sid =
               Some \<lparr>folderBranch = fb, path = parent\<rparr>}"
    by (auto simp: nodeChangeLocked_def image_Un sidOf_notifyRef
        keyed_path[OF consistent_after] split: option.splits)
  ultimately show ?thesis
    by (simp add: getParentPath_top getParentPath_child)
qed

text \<open>The example of the specification: with subscribers of \<open>/a\<close>, \<open>/a/b\<close>,
  \<open>/a/b/c\<close> and \<open>/a/b/c/d\<close>, a change at \<open>/a/b/c\<close> notifies the second and third.\<close>

theorem nodeChange_notifies_path_and_parent_witness:
  "CHR ''/'' \<notin> set ''c'' \<and> getParentPath ''/c'' = None \<and>
   getParentPath ''/a/b/c'' = Some ''/a/b'' \<and>
   sidOf ` nodeChangeLocked (after exampleConfig ''gui'' treeCalls)
              \<lparr>GetPathPlaintextSansTlf = Some ''/a/b/c'', GetFolderBranch = exampleBranch\<rparr> =
     {''s3'', ''s2''}"
proof -
  have n: "CHR ''/'' \<notin> set ''c''" by simp
  have p: "getParentPath ''/a/b/c'' = Some ''/a/b''"
    by (simp add: getParentPath_def)
  have idx: "pathSubscriptionIDToRef (after exampleConfig ''gui'' treeCalls) =
     [''s1'' \<mapsto> \<lparr>folderBranch = exampleBranch, path = ''/a''\<rparr>,
      ''s2'' \<mapsto> \<lparr>folderBranch = exampleBranch, path = ''/a/b''\<rparr>,
      ''s3'' \<mapsto> \<lparr>folderBranch = exampleBranch, path = ''/a/b/c''\<rparr>,
      ''s4'' \<mapsto> \<lparr>folderBranch = exampleBranch, path = ''/a/b/c/d''\<rparr>]"
    by (simp add: treeCalls_def example_defs manager_defs)
  show ?thesis
    using n nodeChange_notifies_path_and_parent[of exampleConfig "''gui''" treeCalls
        "''/a/b/c''" exampleBranch "''c''" "''/a/b''"]
    unfolding p idx
    by (auto split: if_splits)
qed

text \<open>C3 as stated fails for a top-level path: one path component up from \<open>/foo\<close> is
  the root, and a subscriber keyed at the root is not notified of a change at \<open>/foo\<close>.\<close>

theorem nodeChange_top_level_counterexample:
  "pathSubscriptionIDToRef (after exampleConfig ''gui'' rootCalls) ''r'' =
     Some \<lparr>folderBranch = exampleBranch, path = ''/''\<rparr> \<and>
   ''r'' \<notin> sidOf ` nodeChangeLocked (after exampleConfig ''gui'' rootCalls)
                 \<lparr>GetPathPlaintextSansTlf = Some ''/foo'', GetFolderBranch = exampleBranch\<rparr>"
proof -
  have r: "pathSubscriptionIDToRef (after exampleConfig ''gui'' rootCalls) ''r'' =
     Some \<lparr>folderBranch = exampleBranch, path = ''/''\<rparr>"
    by (simp add: rootCalls_def example_defs manager_defs)
  have p: "getParentPath ''/foo'' = None"
    by (simp add: getParentPath_def)
  show ?thesis
    using r p
    by (simp add: nodeChangeLocked_def sidOf_notifyRef keyed_path[OF consistent_after])
qed

text \<open>
  C10. \<^verbatim>\<open>getParentPath\<close> gives no parent for a path whose only separator is the leading
  slash. So, after any sequence of calls, a subscriber keyed at the root \<open>/\<close> is not
  notified of a change at a top-level path \<open>/name\<close>; it is notified of a change at \<open>/\<close>, and
  of no change at another path unless that path starts with two slashes (which a clean
  path does not). A subscriber keyed at a non-empty path \<open>d\<close> is notified of a change at
  its direct child \<open>d/name\<close>.
\<close>

theorem root_subscriber_not_notified_for_children:
  assumes "CHR ''/'' \<notin> set name"
  shows "getParentPath (CHR ''/'' # name) = None \<and>
     (name \<noteq> [] \<and>
      pathSubscriptionIDToRef (after cfg cid cs) sid = Some \<lparr>folderBranch = fb, path = ''/''\<rparr> \<longrightarrow>
        sid \<notin> sidOf ` nodeChangeLocked (after cfg cid cs)
                 \<lparr>GetPathPlaintextSansTlf = Some (CHR ''/'' # name), GetFolderBranch = fb\<rparr>) \<and>
     (pathSubscriptionIDToRef (after cfg cid cs) sid = Some \<lparr>folderBranch = fb, path = ''/''\<rparr> \<longrightarrow>
        sid \<in> sidOf ` nodeChangeLocked (after cfg cid cs)
                 \<lparr>GetPathPlaintextSansTlf = Some ''/'', GetFolderBranch = fb\<rparr>) \<and>
     (pathSubscriptionIDToRef (after cfg cid cs) sid = Some \<lparr>folderBranch = fb, path = ''/''\<rparr> \<and>
      sid \<in> sidOf ` nodeChangeLocked (after cfg cid cs)
                 \<lparr>GetPathPlaintextSansTlf = Some p, GetFolderBranch = fb\<rparr> \<longrightarrow>
        p = ''/'' \<or> take 2 p = ''//'') \<and>
     (d \<noteq> [] \<and>
      pathSubscriptionIDToRef (after cfg cid cs) sid = Some \<lparr>folderBranch = fb, path = d\<rparr> \<longrightarrow>
        getParentPath (d @ CHR ''/'' # name) = Some d \<and>
        sid \<in> sidOf ` nodeChangeLocked (after cfg cid cs)
                 \<lparr>GetPathPlaintextSansTlf = Some (d @ CHR ''/'' # name), GetFolderBranch = fb\<rparr>)"
proof -
  note k = keyed_path[OF consistent_after, of cfg cid cs]
  have top: "getParentPath (CHR ''/'' # name) = None"
    using assms by (rule getParentPath_top)
  have child: "getParentPath (d @ CHR ''/'' # name) = Some d" if "d \<noteq> []"
    using that assms by (rule getParentPath_child)
  have only: "p = ''/'' \<or> take 2 p = ''//''"
    if "pathSubscriptionIDToRef (after cfg cid cs) sid = Some \<lparr>folderBranch = fb, path = ''/''\<rparr>"
      and "sid \<in> sidOf ` nodeChangeLocked (after cfg cid cs)
                 \<lparr>GetPathPlaintextSansTlf = Some p, GetFolderBranch = fb\<rparr>"
    using that parent_root_double_slash[of p]
    by (auto simp: nodeChangeLocked_def image_Un sidOf_notifyRef k split: option.splits)
  show ?thesis
    using top child only
    by (auto simp: nodeChangeLocked_def image_Un sidOf_notifyRef k split: option.splits)
qed

theorem root_subscriber_not_notified_for_children_witness:
  "CHR ''/'' \<notin> set ''foo'' \<and> getParentPath ''/foo'' = None \<and>
   pathSubscriptionIDToRef (after exampleConfig ''gui'' rootCalls) ''r'' =
     Some \<lparr>folderBranch = exampleBranch, path = ''/''\<rparr> \<and>
   ''r'' \<notin> sidOf ` nodeChangeLocked (after exampleConfig ''gui'' rootCalls)
                 \<lparr>GetPathPlaintextSansTlf = Some ''/foo'', GetFolderBranch = exampleBranch\<rparr> \<and>
   ''r'' \<in> sidOf ` nodeChangeLocked (after exampleConfig ''gui'' rootCalls)
                 \<lparr>GetPathPlaintextSansTlf = Some ''/'', GetFolderBranch = exampleBranch\<rparr> \<and>
   pathSubscriptionIDToRef (after exampleConfig ''gui'' rootCalls) ''s1'' =
     Some \<lparr>folderBranch = exampleBranch, path = ''/a''\<rparr> \<and>
   ''s1'' \<in> sidOf ` nodeChangeLocked (after exampleConfig ''gui'' rootCalls)
                 \<lparr>GetPathPlaintextSansTlf = Some ''/a/foo'', GetFolderBranch = exampleBranch\<rparr>"
proof -
  have n: "CHR ''/'' \<notin> set ''foo''" by simp
  have r: "pathSubscriptionIDToRef (after exampleConfig ''gui'' rootCalls) ''r'' =
     Some \<lparr>folderBranch = exampleBranch, path = ''/''\<rparr>"
    by (simp add: rootCalls_def example_defs manager_defs)
  have s: "pathSubscriptionIDToRef (after exampleConfig ''gui'' rootCalls) ''s1'' =
     Some \<lparr>folderBranch = exampleBranch, path = ''/a''\<rparr>"
    by (simp add: rootCalls_def example_defs manager_defs)
  show ?thesis
    using n r s
      root_subscriber_not_notified_for_children[OF n, of exampleConfig "''gui''" rootCalls
        "''r''" exampleBranch "''/foo''" "''/a''"]
      root_subscriber_not_notified_for_children[OF n, of exampleConfig "''gui''" rootCalls
        "''s1''" exampleBranch "''/foo''" "''/a''"]
    by simp
qed

text \<open>
  C6. After any sequence of calls, \<^verbatim>\<open>PublishChange\<close> with the overall-sync-status topic
  notifies every active path subscription, whatever its topic, and every non-path
  subscriber of that topic; with any other topic it notifies exactly the non-path
  subscribers of the topic and no path subscription.
\<close>

theorem publishChange_fanout:
  "sidOf ` PublishChange (after cfg cid cs) SubscriptionTopic_OVERALL_SYNC_STATUS =
     dom (pathSubscriptionIDToRef (after cfg cid cs)) \<union>
     {sid. nonPathSubscriptionIDToTopic (after cfg cid cs) sid =
             Some SubscriptionTopic_OVERALL_SYNC_STATUS} \<and>
   sidOf ` {c \<in> PublishChange (after cfg cid cs) SubscriptionTopic_OVERALL_SYNC_STATUS.
              isPathNotify c} =
     dom (pathSubscriptionIDToRef (after cfg cid cs)) \<and>
   (topic \<noteq> SubscriptionTopic_OVERALL_SYNC_STATUS \<longrightarrow>
      sidOf ` PublishChange (after cfg cid cs) topic =
        {sid. nonPathSubscriptionIDToTopic (after cfg cid cs) sid = Some topic} \<and>
      {c \<in> PublishChange (after cfg cid cs) topic. isPathNotify c} = {})"
proof -
  let ?sm = "after cfg cid cs"
  note kp = keyed_path[OF consistent_after, of cfg cid cs]
  note kt = keyed_topic[OF consistent_after, of cfg cid cs]
  have allp: "sidOf ` (\<Union>ref \<in> dom (pathSubscriptions ?sm). notifyRef ?sm ref) =
      dom (pathSubscriptionIDToRef ?sm)"
  proof -
    have "sidOf ` (\<Union>ref \<in> dom (pathSubscriptions ?sm). notifyRef ?sm ref) =
        (\<Union>ref \<in> dom (pathSubscriptions ?sm). {sid. pathSubscriptionIDToRef ?sm sid = Some ref})"
      by (simp add: image_UN sidOf_notifyRef kp)
    also have "\<dots> = dom (pathSubscriptionIDToRef ?sm)"
    proof -
      have "ref \<in> dom (pathSubscriptions ?sm)"
        if "pathSubscriptionIDToRef ?sm sid = Some ref" for sid ref
      proof -
        from that kp[of ref] have "sid \<in> dom (bucket (pathSubscriptions ?sm) ref)" by simp
        then show ?thesis by (auto simp: bucket_def split: option.splits)
      qed
      then show ?thesis by auto
    qed
    finally show ?thesis .
  qed
  have pathpart: "{c \<in> notifyRef ?sm ref. isPathNotify c} = notifyRef ?sm ref" for ref
    by (auto simp: notifyRef_def split: option.splits)
  have topicpart: "{c \<in> notifyTopic ?sm t. isPathNotify c} = {}" for t
    by (auto simp: notifyTopic_def split: option.splits)
  have split: "{c \<in> A \<union> B. isPathNotify c} = {c \<in> A. isPathNotify c} \<union> {c \<in> B. isPathNotify c}"
    for A B by auto
  let ?A = "\<Union>ref \<in> dom (pathSubscriptions ?sm). notifyRef ?sm ref"
  have up: "{c \<in> ?A. isPathNotify c} = ?A"
    using pathpart by blast
  have overall: "PublishChange ?sm SubscriptionTopic_OVERALL_SYNC_STATUS =
      ?A \<union> notifyTopic ?sm SubscriptionTopic_OVERALL_SYNC_STATUS"
    by (simp add: PublishChange_def)
  have other: "PublishChange ?sm topic = notifyTopic ?sm topic"
    if "topic \<noteq> SubscriptionTopic_OVERALL_SYNC_STATUS"
    using that by (simp add: PublishChange_def)
  have 1: "sidOf ` PublishChange ?sm SubscriptionTopic_OVERALL_SYNC_STATUS =
     dom (pathSubscriptionIDToRef ?sm) \<union>
     {sid. nonPathSubscriptionIDToTopic ?sm sid = Some SubscriptionTopic_OVERALL_SYNC_STATUS}"
    unfolding overall image_Un allp sidOf_notifyTopic kt ..
  have "{c \<in> PublishChange ?sm SubscriptionTopic_OVERALL_SYNC_STATUS. isPathNotify c} = ?A"
    unfolding overall split up topicpart by simp
  then have 2: "sidOf ` {c \<in> PublishChange ?sm SubscriptionTopic_OVERALL_SYNC_STATUS.
      isPathNotify c} = dom (pathSubscriptionIDToRef ?sm)"
    using allp by simp
  have 3: "sidOf ` PublishChange ?sm topic =
        {sid. nonPathSubscriptionIDToTopic ?sm sid = Some topic} \<and>
      {c \<in> PublishChange ?sm topic. isPathNotify c} = {}"
    if "topic \<noteq> SubscriptionTopic_OVERALL_SYNC_STATUS"
    unfolding other[OF that] sidOf_notifyTopic kt topicpart by simp
  from 1 2 3 show ?thesis by blast
qed

theorem publishChange_fanout_witness:
  "SubscriptionTopic_ONLINE_STATUS \<noteq> SubscriptionTopic_OVERALL_SYNC_STATUS \<and>
   sidOf ` PublishChange (after exampleConfig ''gui'' mixedCalls)
             SubscriptionTopic_OVERALL_SYNC_STATUS = {''s1'', ''n1''} \<and>
   sidOf ` PublishChange (after exampleConfig ''gui'' mixedCalls)
             SubscriptionTopic_ONLINE_STATUS = {''n2''} \<and>
   {c \<in> PublishChange (after exampleConfig ''gui'' mixedCalls) SubscriptionTopic_ONLINE_STATUS.
      isPathNotify c} = {}"
proof -
  have idx: "pathSubscriptionIDToRef (after exampleConfig ''gui'' mixedCalls) =
      [''s1'' \<mapsto> \<lparr>folderBranch = exampleBranch, path = ''/a''\<rparr>]"
    "nonPathSubscriptionIDToTopic (after exampleConfig ''gui'' mixedCalls) =
      [''n1'' \<mapsto> SubscriptionTopic_OVERALL_SYNC_STATUS,
       ''n2'' \<mapsto> SubscriptionTopic_ONLINE_STATUS]"
    by (simp_all add: mixedCalls_def example_defs manager_defs)
  have t: "SubscriptionTopic_ONLINE_STATUS \<noteq> SubscriptionTopic_OVERALL_SYNC_STATUS" by simp
  show ?thesis
    using t publishChange_fanout[of exampleConfig "''gui''" mixedCalls
        SubscriptionTopic_ONLINE_STATUS]
    unfolding idx
    by (auto split: if_splits)
qed

section \<open>Duplicate identifiers and reference counts\<close>

text \<open>
  C2, as the code has it. After any sequence of calls and for an active identifier, a
  second \<^verbatim>\<open>subscribeNonPath\<close> fails with the duplicate-subscription error, and so does a
  second \<^verbatim>\<open>subscribePath\<close> whose path resolves without error to a container that
  exists. In every case, also when the resolver fails or gives the zero
  \<^verbatim>\<open>FolderBranch\<close>, the manager is unchanged and nothing is called.
\<close>

theorem duplicate_subscribe_rejected:
  assumes "active (after cfg cid cs) sid"
  shows "subscribeNonPath (after cfg cid cs) sid topic iv notifier =
       (Some (DuplicateSubscription sid), after cfg cid cs, []) \<and>
     (parsePath cfg p = Inr parsed \<and> getFolderBranch cfg parsed = Inr fb \<and>
      fb \<noteq> zeroFolderBranch \<longrightarrow>
        subscribePath (after cfg cid cs) sid p ptopic iv notifier =
          (Some (DuplicateSubscription sid), after cfg cid cs, [])) \<and>
     snd (subscribePath (after cfg cid cs) sid p ptopic iv notifier) = (after cfg cid cs, [])"
proof -
  from assms have dup: "isSet (subscriptionIDs (after cfg cid cs)) sid"
    by (simp add: active_isSet[OF consistent_after])
  have "snd (subscribePath (after cfg cid cs) sid p ptopic iv notifier) = (after cfg cid cs, [])"
    using dup
    by (cases "parsePath cfg p"; cases "getFolderBranch cfg (projr (parsePath cfg p))")
       (auto simp: subscribePath_def checkSubscriptionIDLocked_def)
  then show ?thesis
    using dup by (auto simp: subscribePath_def subscribeNonPath_def checkSubscriptionIDLocked_def)
qed

theorem duplicate_subscribe_rejected_witness:
  "active (after exampleConfig ''gui'' [SubscribePath ''s1'' ''/a'' 0 None 7]) ''s1'' \<and>
   subscribeNonPath (after exampleConfig ''gui'' [SubscribePath ''s1'' ''/a'' 0 None 7]) ''s1''
       SubscriptionTopic_ONLINE_STATUS None 7 =
     (Some (DuplicateSubscription ''s1''),
      after exampleConfig ''gui'' [SubscribePath ''s1'' ''/a'' 0 None 7], []) \<and>
   subscribePath (after exampleConfig ''gui'' [SubscribePath ''s1'' ''/a'' 0 None 7]) ''s1''
       ''/b'' 0 None 7 =
     (Some (DuplicateSubscription ''s1''),
      after exampleConfig ''gui'' [SubscribePath ''s1'' ''/a'' 0 None 7], [])"
proof -
  have a: "active (after exampleConfig ''gui'' [SubscribePath ''s1'' ''/a'' 0 None 7]) ''s1''"
    by (simp add: active_def example_defs manager_defs)
  have r: "parsePath exampleConfig ''/b'' = Inr \<lparr>rawInTlfPath = ''/b''\<rparr> \<and>
      getFolderBranch exampleConfig \<lparr>rawInTlfPath = ''/b''\<rparr> = Inr exampleBranch \<and>
      exampleBranch \<noteq> zeroFolderBranch"
    by (simp add: exampleConfig_def exampleBranch_def zeroFolderBranch_def)
  show ?thesis
    using a r duplicate_subscribe_rejected[OF a, of SubscriptionTopic_ONLINE_STATUS None 7
        "''/b''" "\<lparr>rawInTlfPath = ''/b''\<rparr>" exampleBranch 0]
    by simp
qed

text \<open>C2 as stated fails: the resolver is asked before the identifier is checked, so with
  an active identifier a path in a container that does not exist gives success, and a
  path that does not parse gives the resolver's error.\<close>

theorem duplicate_subscribe_unresolved_counterexample:
  "active (after exampleConfig ''gui'' [SubscribePath ''s1'' ''/a'' 0 None 7]) ''s1'' \<and>
   fst (subscribePath (after exampleConfig ''gui'' [SubscribePath ''s1'' ''/a'' 0 None 7])
          ''s1'' ''/none/x'' 0 None 7) = None \<and>
   fst (subscribePath (after exampleConfig ''gui'' [SubscribePath ''s1'' ''/a'' 0 None 7])
          ''s1'' [] 0 None 7) = Some (ResolveError ''empty path'')"
  by (simp add: active_def example_defs manager_defs)

text \<open>
  C1 at two subscriptions on one path: \<^verbatim>\<open>subscribePath\<close> counts each subscription,
  \<^verbatim>\<open>unsubscribePath\<close> counts down only when the bucket of the path becomes empty. After
  both are removed no path subscription is left, the count of the container is 1 and the
  registrar was asked to register and never to unregister. After the first removal one
  subscription is active and the count is 2.
\<close>

theorem refcount_leaks_on_shared_ref:
  "pathSubscriptionIDToRef (after exampleConfig ''gui'' sameRefCalls) = Map.empty \<and>
   pathSubscriptions (after exampleConfig ''gui'' sameRefCalls) = Map.empty \<and>
   subscriptionCountByFolderBranch (after exampleConfig ''gui'' sameRefCalls) exampleBranch =
     Some 1 \<and>
   filter isRegistrarCall (effectsOf exampleConfig ''gui'' sameRefCalls) =
     [RegisterForChanges exampleBranch] \<and>
   pathSubscriptionIDToRef (after exampleConfig ''gui'' (take 3 sameRefCalls)) =
     [''s2'' \<mapsto> \<lparr>folderBranch = exampleBranch, path = ''/a''\<rparr>] \<and>
   subscriptionCountByFolderBranch (after exampleConfig ''gui'' (take 3 sameRefCalls))
     exampleBranch = Some 2"
  by (simp add: sameRefCalls_def example_defs manager_defs)

section \<open>Shutting a manager down\<close>

lemma consistent_path:
  "consistent sm \<Longrightarrow>
   (pathSubscriptionIDToRef sm sid = Some ref) = (bucket (pathSubscriptions sm) ref sid \<noteq> None)"
  by (simp add: consistent_defs)

lemma consistent_topic:
  "consistent sm \<Longrightarrow>
   (nonPathSubscriptionIDToTopic sm sid = Some topic) =
     (bucket (nonPathSubscriptions sm) topic sid \<noteq> None)"
  by (simp add: consistent_defs)

lemma pidx_unsubscribePath:
  "pathSubscriptionIDToRef (fst (unsubscribePath sm sid)) = (pathSubscriptionIDToRef sm)(sid := None)"
  by (cases "pathSubscriptionIDToRef sm sid")
     (auto simp: unsubscribePath_def Let_def split_beta split: option.splits)

lemma tidx_unsubscribePath [simp]:
  "nonPathSubscriptionIDToTopic (fst (unsubscribePath sm sid)) = nonPathSubscriptionIDToTopic sm"
  by (auto simp: unsubscribePath_def Let_def split_beta split: option.splits)

lemma nps_unsubscribePath [simp]:
  "nonPathSubscriptions (fst (unsubscribePath sm sid)) = nonPathSubscriptions sm"
  by (auto simp: unsubscribePath_def Let_def split_beta split: option.splits)

lemma tidx_unsubscribeNonPath:
  "nonPathSubscriptionIDToTopic (fst (unsubscribeNonPath sm sid)) =
     (nonPathSubscriptionIDToTopic sm)(sid := None)"
  by (cases "nonPathSubscriptionIDToTopic sm sid")
     (auto simp: unsubscribeNonPath_def Let_def split_beta split: option.splits)

lemma ps_unsubscribeNonPath [simp]:
  "pathSubscriptions (fst (unsubscribeNonPath sm sid)) = pathSubscriptions sm"
  by (auto simp: unsubscribeNonPath_def Let_def split_beta split: option.splits)

lemma bucket_unsubscribePath:
  assumes c: "consistent sm"
  shows "bucket (pathSubscriptions (fst (unsubscribePath sm sid))) r =
     (bucket (pathSubscriptions sm) r)(sid := None)"
proof (cases "pathSubscriptionIDToRef sm sid")
  case None
  with consistent_path[OF c, of sid r] have "bucket (pathSubscriptions sm) r sid = None"
    by auto
  with None show ?thesis by (auto simp: unsubscribePath_def fun_eq_iff)
next
  case (Some ref)
  have pidx: "(pathSubscriptionIDToRef sm s = Some r') =
      (bucket (pathSubscriptions sm) r' s \<noteq> None)" for s r'
    using c by (simp add: consistent_defs)
  from Some pidx[of sid ref] obtain subs n where
    f: "pathSubscriptions sm ref = Some subs" "subs sid = Some n"
    by (auto simp: bucket_def split: option.splits)
  have elsewhere: "bucket (pathSubscriptions sm) r' sid = None" if "r' \<noteq> ref" for r'
    using pidx[of sid r'] Some that by auto
  have ps: "pathSubscriptions (fst (unsubscribePath sm sid)) =
       (if dom subs = {sid} then (pathSubscriptions sm)(ref := None)
        else (pathSubscriptions sm)(ref \<mapsto> subs(sid := None)))"
    unfolding unsubscribePath_found[OF Some f] by simp
  show ?thesis
  proof (cases "r = ref")
    case True
    then show ?thesis using f
      by (auto simp: ps bucket_def fun_eq_iff domIff)
  next
    case False
    with elsewhere[OF False] show ?thesis
      by (auto simp: ps bucket_def fun_eq_iff)
  qed
qed

lemma bucket_unsubscribeNonPath:
  assumes c: "consistent sm"
  shows "bucket (nonPathSubscriptions (fst (unsubscribeNonPath sm sid))) t =
     (bucket (nonPathSubscriptions sm) t)(sid := None)"
proof (cases "nonPathSubscriptionIDToTopic sm sid")
  case None
  with consistent_topic[OF c, of sid t] have "bucket (nonPathSubscriptions sm) t sid = None"
    by auto
  with None show ?thesis by (auto simp: unsubscribeNonPath_def fun_eq_iff)
next
  case (Some topic)
  have tidx: "(nonPathSubscriptionIDToTopic sm s = Some t') =
      (bucket (nonPathSubscriptions sm) t' s \<noteq> None)" for s t'
    using c by (simp add: consistent_defs)
  from Some tidx[of sid topic] obtain subs n where
    f: "nonPathSubscriptions sm topic = Some subs" "subs sid = Some n"
    by (auto simp: bucket_def split: option.splits)
  have elsewhere: "bucket (nonPathSubscriptions sm) t' sid = None" if "t' \<noteq> topic" for t'
    using tidx[of sid t'] Some that by auto
  have ps: "nonPathSubscriptions (fst (unsubscribeNonPath sm sid)) =
       (nonPathSubscriptions sm)(topic \<mapsto> subs(sid := None))"
    unfolding unsubscribeNonPath_found[OF Some f] by simp
  show ?thesis
  proof (cases "t = topic")
    case True
    then show ?thesis using f by (simp add: ps bucket_def)
  next
    case False
    with elsewhere[OF False] show ?thesis
      by (auto simp: ps fun_eq_iff)
  qed
qed

lemma shutdownCall_unsubscribePath:
  assumes "consistent sm" "bucket (pathSubscriptions sm) ref sid = Some n"
  shows "shutdownCall n \<in> set (snd (unsubscribePath sm sid))"
proof -
  from assms have i: "pathSubscriptionIDToRef sm sid = Some ref"
    by (simp add: consistent_defs)
  from assms(2) obtain subs where f: "pathSubscriptions sm ref = Some subs" "subs sid = Some n"
    by (auto simp: bucket_def split: option.splits)
  show ?thesis unfolding unsubscribePath_found[OF i f] by simp
qed

lemma shutdownCall_unsubscribeNonPath:
  assumes "consistent sm" "bucket (nonPathSubscriptions sm) topic sid = Some n"
  shows "shutdownCall n \<in> set (snd (unsubscribeNonPath sm sid))"
proof -
  from assms have i: "nonPathSubscriptionIDToTopic sm sid = Some topic"
    by (simp add: consistent_defs)
  from assms(2) obtain subs where f: "nonPathSubscriptions sm topic = Some subs" "subs sid = Some n"
    by (auto simp: bucket_def split: option.splits)
  show ?thesis unfolding unsubscribeNonPath_found[OF i f] by simp
qed

lemma unsubscribeAll_path:
  assumes "consistent sm"
  shows "pathSubscriptionIDToRef (fst (unsubscribeAll unsubscribePath sids sm)) =
       (\<lambda>s. if s \<in> set sids then None else pathSubscriptionIDToRef sm s) \<and>
     nonPathSubscriptionIDToTopic (fst (unsubscribeAll unsubscribePath sids sm)) =
       nonPathSubscriptionIDToTopic sm \<and>
     nonPathSubscriptions (fst (unsubscribeAll unsubscribePath sids sm)) =
       nonPathSubscriptions sm \<and>
     (\<forall>ref sid n. sid \<in> set sids \<and> bucket (pathSubscriptions sm) ref sid = Some n \<longrightarrow>
        shutdownCall n \<in> set (snd (unsubscribeAll unsubscribePath sids sm)))"
  using assms
proof (induction sids arbitrary: sm)
  case Nil
  then show ?case by simp
next
  case (Cons h sids)
  let ?s1 = "fst (unsubscribePath sm h)"
  have c1: "consistent ?s1" using Cons.prems by (rule consistent_unsubscribePath)
  note ih = Cons.IH[OF c1]
  have b: "bucket (pathSubscriptions ?s1) r = (bucket (pathSubscriptions sm) r)(h := None)" for r
    using Cons.prems by (rule bucket_unsubscribePath)
  have eff: "snd (unsubscribeAll unsubscribePath (h # sids) sm) =
      snd (unsubscribePath sm h) @ snd (unsubscribeAll unsubscribePath sids ?s1)"
    by (simp add: split_beta)
  have st: "fst (unsubscribeAll unsubscribePath (h # sids) sm) =
      fst (unsubscribeAll unsubscribePath sids ?s1)"
    by (simp add: split_beta)
  have "shutdownCall n \<in> set (snd (unsubscribeAll unsubscribePath (h # sids) sm))"
    if "sid \<in> set (h # sids)" "bucket (pathSubscriptions sm) ref sid = Some n" for ref sid n
  proof (cases "sid = h")
    case True
    with that(2) Cons.prems show ?thesis
      unfolding eff using shutdownCall_unsubscribePath by fastforce
  next
    case False
    with that have "sid \<in> set sids" "bucket (pathSubscriptions ?s1) ref sid = Some n"
      by (simp_all add: b)
    with ih show ?thesis unfolding eff by auto
  qed
  then show ?case
    unfolding st using ih by (auto simp: pidx_unsubscribePath fun_eq_iff)
qed

lemma unsubscribeAll_nonPath:
  assumes "consistent sm"
  shows "nonPathSubscriptionIDToTopic (fst (unsubscribeAll unsubscribeNonPath sids sm)) =
       (\<lambda>s. if s \<in> set sids then None else nonPathSubscriptionIDToTopic sm s) \<and>
     pathSubscriptionIDToRef (fst (unsubscribeAll unsubscribeNonPath sids sm)) =
       pathSubscriptionIDToRef sm \<and>
     pathSubscriptions (fst (unsubscribeAll unsubscribeNonPath sids sm)) =
       pathSubscriptions sm \<and>
     (\<forall>topic sid n. sid \<in> set sids \<and> bucket (nonPathSubscriptions sm) topic sid = Some n \<longrightarrow>
        shutdownCall n \<in> set (snd (unsubscribeAll unsubscribeNonPath sids sm)))"
  using assms
proof (induction sids arbitrary: sm)
  case Nil
  then show ?case by simp
next
  case (Cons h sids)
  let ?s1 = "fst (unsubscribeNonPath sm h)"
  have c1: "consistent ?s1" using Cons.prems by (rule consistent_unsubscribeNonPath)
  note ih = Cons.IH[OF c1]
  have b: "bucket (nonPathSubscriptions ?s1) r = (bucket (nonPathSubscriptions sm) r)(h := None)"
    for r
    using Cons.prems by (rule bucket_unsubscribeNonPath)
  have eff: "snd (unsubscribeAll unsubscribeNonPath (h # sids) sm) =
      snd (unsubscribeNonPath sm h) @ snd (unsubscribeAll unsubscribeNonPath sids ?s1)"
    by (simp add: split_beta)
  have st: "fst (unsubscribeAll unsubscribeNonPath (h # sids) sm) =
      fst (unsubscribeAll unsubscribeNonPath sids ?s1)"
    by (simp add: split_beta)
  have "shutdownCall n \<in> set (snd (unsubscribeAll unsubscribeNonPath (h # sids) sm))"
    if "sid \<in> set (h # sids)" "bucket (nonPathSubscriptions sm) topic sid = Some n"
    for topic sid n
  proof (cases "sid = h")
    case True
    with that(2) Cons.prems show ?thesis
      unfolding eff using shutdownCall_unsubscribeNonPath by fastforce
  next
    case False
    with that have "sid \<in> set sids" "bucket (nonPathSubscriptions ?s1) topic sid = Some n"
      by (simp_all add: b)
    with ih show ?thesis unfolding eff by auto
  qed
  then show ?case
    unfolding st using ih by (auto simp: tidx_unsubscribeNonPath fun_eq_iff)
qed

lemma Shutdown_cancels_all:
  assumes c: "consistent sm"
    and p: "rangeOrder (pathSubscriptionIDToRef sm) pathSids"
    and t: "rangeOrder (nonPathSubscriptionIDToTopic sm) nonPathSids"
  shows "\<not> active (fst (Shutdown sm pathSids nonPathSids)) sid"
    and "pathSubscriptions (fst (Shutdown sm pathSids nonPathSids)) = Map.empty"
    and "bucket (pathSubscriptions sm) ref sid = Some n \<Longrightarrow>
         shutdownCall n \<in> set (snd (Shutdown sm pathSids nonPathSids))"
    and "bucket (nonPathSubscriptions sm) topic sid = Some n \<Longrightarrow>
         shutdownCall n \<in> set (snd (Shutdown sm pathSids nonPathSids))"
proof -
  let ?s1 = "fst (unsubscribeAll unsubscribePath pathSids sm)"
  let ?s2 = "fst (unsubscribeAll unsubscribeNonPath nonPathSids ?s1)"
  have c1: "consistent ?s1"
    by (rule consistent_unsubscribeAll[where unsub = unsubscribePath])
       (simp_all add: consistent_unsubscribePath c)
  have c2: "consistent ?s2"
    using consistent_Shutdown[OF c, of pathSids nonPathSids] by (simp add: Shutdown_def split_beta)
  note a1 = unsubscribeAll_path[OF c, of pathSids]
  note a2 = unsubscribeAll_nonPath[OF c1, of nonPathSids]
  have st: "fst (Shutdown sm pathSids nonPathSids) = ?s2"
    by (simp add: Shutdown_def split_beta)
  have eff: "snd (Shutdown sm pathSids nonPathSids) =
      trackerShutdown (clientID sm) # snd (unsubscribeAll unsubscribePath pathSids sm) @
        snd (unsubscribeAll unsubscribeNonPath nonPathSids ?s1)"
    by (simp add: Shutdown_def split_beta)
  have pe: "pathSubscriptionIDToRef ?s2 = Map.empty"
    using a1 a2 p by (auto simp: rangeOrder_def fun_eq_iff)
  have te: "nonPathSubscriptionIDToTopic ?s2 = Map.empty"
    using a1 a2 t by (auto simp: rangeOrder_def fun_eq_iff)
  show "\<not> active (fst (Shutdown sm pathSids nonPathSids)) sid"
    unfolding st by (simp add: active_def pe te)
  show "pathSubscriptions (fst (Shutdown sm pathSids nonPathSids)) = Map.empty"
  proof (rule ext)
    fix r
    show "pathSubscriptions (fst (Shutdown sm pathSids nonPathSids)) r = None"
    proof (cases "pathSubscriptions ?s2 r")
      case None
      then show ?thesis by (simp add: st)
    next
      case (Some subs)
      have "subs s = None" for s
        using c2 pe Some by (auto simp: consistent_defs bucket_def split: option.splits)
      then have "subs = Map.empty" by auto
      with Some c2 show ?thesis by (simp add: consistent_defs)
    qed
  qed
  show "shutdownCall n \<in> set (snd (Shutdown sm pathSids nonPathSids))"
    if "bucket (pathSubscriptions sm) ref sid = Some n"
  proof -
    from c that have "pathSubscriptionIDToRef sm sid = Some ref" by (simp add: consistent_defs)
    with p have "sid \<in> set pathSids" by (auto simp: rangeOrder_def)
    with a1 that show ?thesis unfolding eff by auto
  qed
  show "shutdownCall n \<in> set (snd (Shutdown sm pathSids nonPathSids))"
    if "bucket (nonPathSubscriptions sm) topic sid = Some n"
  proof -
    from c that have "nonPathSubscriptionIDToTopic sm sid = Some topic"
      by (simp add: consistent_defs)
    with t have "sid \<in> set nonPathSids" by (auto simp: rangeOrder_def)
    moreover from that a1 have "bucket (nonPathSubscriptions ?s1) topic sid = Some n" by simp
    ultimately show ?thesis using a2 unfolding eff by auto
  qed
qed

section \<open>The registry\<close>

lemma get_hit:
  "subscriptionManagers smm cid = Some sm \<Longrightarrow>
   get smm cid purgeable pathSids nonPathSids = Inr (sm, smm, [])"
  by (simp add: get_def)

lemma get_miss_no_eviction:
  assumes "subscriptionManagers smm cid = None"
    and "\<not> purgeable \<or>
         length (purgeableClientIDsFIFO smm) \<noteq> maxPurgeableSubscriptionManagerClient"
  shows "get smm cid purgeable pathSids nonPathSids =
     Inr (newSubscriptionManager cid (smm_config smm),
          smm\<lparr>subscriptionManagers :=
                 (subscriptionManagers smm)(cid \<mapsto> newSubscriptionManager cid (smm_config smm)),
               purgeableClientIDsFIFO :=
                 (if purgeable then purgeableClientIDsFIFO smm @ [cid]
                  else purgeableClientIDsFIFO smm)\<rparr>,
          [])"
  using assms by (auto simp: get_def Let_def)

lemma get_miss_eviction:
  assumes "subscriptionManagers smm cid = None" "purgeable"
    and "length (purgeableClientIDsFIFO smm) = maxPurgeableSubscriptionManagerClient"
    and "subscriptionManagers smm (hd (purgeableClientIDsFIFO smm)) = Some old"
  shows "get smm cid purgeable pathSids nonPathSids =
     Inr (newSubscriptionManager cid (smm_config smm),
          smm\<lparr>subscriptionManagers :=
                 ((subscriptionManagers smm)(hd (purgeableClientIDsFIFO smm) := None))
                   (cid \<mapsto> newSubscriptionManager cid (smm_config smm)),
               purgeableClientIDsFIFO := tl (purgeableClientIDsFIFO smm) @ [cid]\<rparr>,
          snd (Shutdown old pathSids nonPathSids))"
proof -
  from assms(3) obtain a rest where f: "purgeableClientIDsFIFO smm = a # rest"
    by (cases "purgeableClientIDsFIFO smm")
       (simp_all add: maxPurgeableSubscriptionManagerClient_def)
  with assms show ?thesis
    by (simp add: get_def purgeOldest_def Let_def)
qed

lemma wellQueued_get:
  assumes w: "wellQueued smm" and m: "subscriptionManagers smm cid = None"
  shows "\<exists>smm1 effs. get smm cid purgeable pathSids nonPathSids =
        Inr (newSubscriptionManager cid (smm_config smm), smm1, effs) \<and>
      wellQueued smm1 \<and> smm_config smm1 = smm_config smm"
proof (cases "purgeable \<and>
    length (purgeableClientIDsFIFO smm) = maxPurgeableSubscriptionManagerClient")
  case False
  then have n: "\<not> purgeable \<or>
      length (purgeableClientIDsFIFO smm) \<noteq> maxPurgeableSubscriptionManagerClient" by blast
  from w m have "cid \<notin> set (purgeableClientIDsFIFO smm)"
    by (auto simp: wellQueued_def)
  with w n show ?thesis
    unfolding get_miss_no_eviction[OF m n]
    by (auto simp: wellQueued_def consistent_new)
next
  case True
  then obtain a rest where f: "purgeableClientIDsFIFO smm = a # rest"
    by (cases "purgeableClientIDsFIFO smm")
       (simp_all add: maxPurgeableSubscriptionManagerClient_def)
  with w obtain old where o: "subscriptionManagers smm (hd (purgeableClientIDsFIFO smm)) = Some old"
    by (auto simp: wellQueued_def)
  from w m have nq: "cid \<notin> set (purgeableClientIDsFIFO smm)"
    by (auto simp: wellQueued_def)
  from True have p: purgeable
    and l: "length (purgeableClientIDsFIFO smm) = maxPurgeableSubscriptionManagerClient"
    by simp_all
  show ?thesis
    unfolding get_miss_eviction[OF m p l o]
    using w nq f l
    by (auto simp: wellQueued_def consistent_new)
qed

lemma wellQueued_serve:
  assumes "wellQueued smm"
  shows "\<exists>smm1. serve r smm = Inr smm1 \<and> wellQueued smm1 \<and> smm_config smm1 = smm_config smm"
proof (cases r)
  case (Get cid purgeable pathSids nonPathSids)
  show ?thesis
  proof (cases "subscriptionManagers smm cid")
    case None
    from wellQueued_get[OF assms None, of purgeable pathSids nonPathSids]
    show ?thesis unfolding Get by auto
  next
    case (Some sm)
    then show ?thesis using assms by (simp add: Get get_hit)
  qed
next
  case (CallOn cid c)
  show ?thesis
  proof (cases "subscriptionManagers smm cid")
    case None
    then show ?thesis using assms by (simp add: CallOn)
  next
    case (Some sm)
    with assms have "consistent (fst (perform c sm))"
      by (auto simp: wellQueued_def intro: consistent_perform)
    with Some assms show ?thesis
      by (auto simp: CallOn wellQueued_def)
  qed
qed

lemma wellQueued_serveAll:
  assumes "wellQueued smm"
  shows "\<exists>smm1. serveAll rs smm = Inr smm1 \<and> wellQueued smm1 \<and>
     smm_config smm1 = smm_config smm"
  using assms
proof (induction rs arbitrary: smm)
  case Nil
  then show ?case by simp
next
  case (Cons r rs)
  from wellQueued_serve[OF Cons.prems, of r] obtain s1 where
    s: "serve r smm = Inr s1" "wellQueued s1" "smm_config s1 = smm_config smm" by blast
  from Cons.IH[OF s(2)] s show ?case by auto
qed

lemma wellQueued_new: "wellQueued (newSubscriptionManagerManager cfg)"
  by (simp add: wellQueued_def newSubscriptionManagerManager_def)

text \<open>
  C7. In a registry reached by any sequence of requests, \<^verbatim>\<open>get\<close> returns a registered
  manager as it is and changes nothing. For an unknown client it registers a new,
  empty manager. When that client is purgeable and three purgeable clients are queued,
  the oldest of them is registered, its manager is shut down (every subscription of it
  is cancelled: each stored notifier is shut down and no identifier stays active) and
  removed, the new client is queued last, and a later \<^verbatim>\<open>get\<close> for the evicted client
  gives a new, empty manager again. A client that is not in the queue of purgeable
  clients stays registered with its manager, and a client that is not purgeable does not
  enter the queue.
\<close>

theorem get_creates_and_evicts:
  assumes "serveAll reqs (newSubscriptionManagerManager cfg) = Inr smm"
  shows "(\<forall>sm. subscriptionManagers smm cid = Some sm \<longrightarrow>
            get smm cid purgeable pathSids nonPathSids = Inr (sm, smm, [])) \<and>
     (subscriptionManagers smm cid = None \<and>
      (\<not> purgeable \<or>
       length (purgeableClientIDsFIFO smm) \<noteq> maxPurgeableSubscriptionManagerClient) \<longrightarrow>
        get smm cid purgeable pathSids nonPathSids =
          Inr (newSubscriptionManager cid cfg,
               smm\<lparr>subscriptionManagers :=
                      (subscriptionManagers smm)(cid \<mapsto> newSubscriptionManager cid cfg),
                    purgeableClientIDsFIFO :=
                      (if purgeable then purgeableClientIDsFIFO smm @ [cid]
                       else purgeableClientIDsFIFO smm)\<rparr>,
               [])) \<and>
     (subscriptionManagers smm cid = None \<and> purgeable \<and>
      length (purgeableClientIDsFIFO smm) = maxPurgeableSubscriptionManagerClient \<longrightarrow>
        (\<exists>old. subscriptionManagers smm (hd (purgeableClientIDsFIFO smm)) = Some old \<and>
           get smm cid purgeable pathSids nonPathSids =
             Inr (newSubscriptionManager cid cfg,
                  smm\<lparr>subscriptionManagers :=
                         ((subscriptionManagers smm)(hd (purgeableClientIDsFIFO smm) := None))
                           (cid \<mapsto> newSubscriptionManager cid cfg),
                       purgeableClientIDsFIFO := tl (purgeableClientIDsFIFO smm) @ [cid]\<rparr>,
                  snd (Shutdown old pathSids nonPathSids)) \<and>
           (rangeOrder (pathSubscriptionIDToRef old) pathSids \<and>
            rangeOrder (nonPathSubscriptionIDToTopic old) nonPathSids \<longrightarrow>
              (\<forall>sid. \<not> active (fst (Shutdown old pathSids nonPathSids)) sid) \<and>
              (\<forall>ref sid n. bucket (pathSubscriptions old) ref sid = Some n \<longrightarrow>
                 shutdownCall n \<in> set (snd (Shutdown old pathSids nonPathSids))) \<and>
              (\<forall>topic sid n. bucket (nonPathSubscriptions old) topic sid = Some n \<longrightarrow>
                 shutdownCall n \<in> set (snd (Shutdown old pathSids nonPathSids)))) \<and>
           (\<forall>sm1 smm1 effs.
              get smm cid purgeable pathSids nonPathSids = Inr (sm1, smm1, effs) \<longrightarrow>
                subscriptionManagers smm1 (hd (purgeableClientIDsFIFO smm)) = None \<and>
                (\<exists>smm2 effs2.
                   get smm1 (hd (purgeableClientIDsFIFO smm)) purgeable2 pathSids2 nonPathSids2 =
                     Inr (newSubscriptionManager (hd (purgeableClientIDsFIFO smm)) cfg,
                          smm2, effs2))))) \<and>
     (\<forall>sm1 smm1 effs x m.
        get smm cid purgeable pathSids nonPathSids = Inr (sm1, smm1, effs) \<and>
        x \<notin> set (purgeableClientIDsFIFO smm) \<and> subscriptionManagers smm x = Some m \<longrightarrow>
          subscriptionManagers smm1 x = Some m)"
proof -
  from wellQueued_serveAll[OF wellQueued_new, of reqs cfg] assms
  have w: "wellQueued smm" and cfg: "smm_config smm = cfg"
    by (auto simp: newSubscriptionManagerManager_def)
  let ?q = "purgeableClientIDsFIFO smm"
  have hit: "\<forall>sm. subscriptionManagers smm cid = Some sm \<longrightarrow>
      get smm cid purgeable pathSids nonPathSids = Inr (sm, smm, [])"
    by (simp add: get_hit)
  have plain: "get smm cid purgeable pathSids nonPathSids =
          Inr (newSubscriptionManager cid cfg,
               smm\<lparr>subscriptionManagers :=
                      (subscriptionManagers smm)(cid \<mapsto> newSubscriptionManager cid cfg),
                    purgeableClientIDsFIFO := (if purgeable then ?q @ [cid] else ?q)\<rparr>,
               [])"
    if "subscriptionManagers smm cid = None"
      "\<not> purgeable \<or> length ?q \<noteq> maxPurgeableSubscriptionManagerClient"
    using get_miss_no_eviction[OF that] by (simp add: cfg)
  have evict: "\<exists>old. subscriptionManagers smm (hd ?q) = Some old \<and>
           get smm cid purgeable pathSids nonPathSids =
             Inr (newSubscriptionManager cid cfg,
                  smm\<lparr>subscriptionManagers :=
                         ((subscriptionManagers smm)(hd ?q := None))
                           (cid \<mapsto> newSubscriptionManager cid cfg),
                       purgeableClientIDsFIFO := tl ?q @ [cid]\<rparr>,
                  snd (Shutdown old pathSids nonPathSids)) \<and>
           (rangeOrder (pathSubscriptionIDToRef old) pathSids \<and>
            rangeOrder (nonPathSubscriptionIDToTopic old) nonPathSids \<longrightarrow>
              (\<forall>sid. \<not> active (fst (Shutdown old pathSids nonPathSids)) sid) \<and>
              (\<forall>ref sid n. bucket (pathSubscriptions old) ref sid = Some n \<longrightarrow>
                 shutdownCall n \<in> set (snd (Shutdown old pathSids nonPathSids))) \<and>
              (\<forall>topic sid n. bucket (nonPathSubscriptions old) topic sid = Some n \<longrightarrow>
                 shutdownCall n \<in> set (snd (Shutdown old pathSids nonPathSids)))) \<and>
           (\<forall>sm1 smm1 effs.
              get smm cid purgeable pathSids nonPathSids = Inr (sm1, smm1, effs) \<longrightarrow>
                subscriptionManagers smm1 (hd ?q) = None \<and>
                (\<exists>smm2 effs2.
                   get smm1 (hd ?q) purgeable2 pathSids2 nonPathSids2 =
                     Inr (newSubscriptionManager (hd ?q) cfg, smm2, effs2)))"
    if m: "subscriptionManagers smm cid = None" and p: purgeable
      and l: "length ?q = maxPurgeableSubscriptionManagerClient"
  proof -
    from l obtain a rest where f: "?q = a # rest"
      by (cases ?q) (simp_all add: maxPurgeableSubscriptionManagerClient_def)
    with w obtain old where o: "subscriptionManagers smm (hd ?q) = Some old"
      by (auto simp: wellQueued_def)
    from w o have c: "consistent old" by (auto simp: wellQueued_def)
    have g: "get smm cid purgeable pathSids nonPathSids =
        Inr (newSubscriptionManager cid cfg,
             smm\<lparr>subscriptionManagers :=
                    ((subscriptionManagers smm)(hd ?q := None))
                      (cid \<mapsto> newSubscriptionManager cid cfg),
                  purgeableClientIDsFIFO := tl ?q @ [cid]\<rparr>,
             snd (Shutdown old pathSids nonPathSids))"
      using get_miss_eviction[OF m p l o, of pathSids nonPathSids] by (simp add: cfg)
    from wellQueued_get[OF w m, of purgeable pathSids nonPathSids] g
    have w1: "wellQueued (smm\<lparr>subscriptionManagers :=
                         ((subscriptionManagers smm)(hd ?q := None))
                           (cid \<mapsto> newSubscriptionManager cid cfg),
                       purgeableClientIDsFIFO := tl ?q @ [cid]\<rparr>)" (is "wellQueued ?smm1")
      by (simp add: cfg)
    from m o have ne: "hd ?q \<noteq> cid" by auto
    then have gone: "subscriptionManagers ?smm1 (hd ?q) = None" by simp
    from wellQueued_get[OF w1 gone, of purgeable2 pathSids2 nonPathSids2]
    have again: "\<exists>smm2 effs2. get ?smm1 (hd ?q) purgeable2 pathSids2 nonPathSids2 =
        Inr (newSubscriptionManager (hd ?q) cfg, smm2, effs2)"
      by (auto simp: cfg)
    have cancel: "(\<forall>sid. \<not> active (fst (Shutdown old pathSids nonPathSids)) sid) \<and>
        (\<forall>ref sid n. bucket (pathSubscriptions old) ref sid = Some n \<longrightarrow>
           shutdownCall n \<in> set (snd (Shutdown old pathSids nonPathSids))) \<and>
        (\<forall>topic sid n. bucket (nonPathSubscriptions old) topic sid = Some n \<longrightarrow>
           shutdownCall n \<in> set (snd (Shutdown old pathSids nonPathSids)))"
      if "rangeOrder (pathSubscriptionIDToRef old) pathSids"
        "rangeOrder (nonPathSubscriptionIDToTopic old) nonPathSids"
      using Shutdown_cancels_all[OF c that] by blast
    show ?thesis
      using o g gone again cancel by (intro exI[of _ old]) simp
  qed
  have stay: "subscriptionManagers smm1 x = Some m"
    if g: "get smm cid purgeable pathSids nonPathSids = Inr (sm1, smm1, effs)"
      and x: "x \<notin> set ?q" "subscriptionManagers smm x = Some m" for sm1 smm1 effs x m
  proof (cases "subscriptionManagers smm cid")
    case (Some sm)
    with g x show ?thesis by (simp add: get_hit)
  next
    case None
    with x have xc: "x \<noteq> cid" by auto
    show ?thesis
    proof (cases "purgeable \<and> length ?q = maxPurgeableSubscriptionManagerClient")
      case False
      then have "\<not> purgeable \<or> length ?q \<noteq> maxPurgeableSubscriptionManagerClient" by blast
      from plain[OF None this] g x xc show ?thesis by auto
    next
      case True
      then have "?q \<noteq> []" by (auto simp: maxPurgeableSubscriptionManagerClient_def)
      with x have "x \<noteq> hd ?q" by auto
      with evict[OF None] True g x xc show ?thesis by auto
    qed
  qed
  from hit plain evict stay show ?thesis by blast
qed

theorem get_creates_and_evicts_witness:
  "serveAll exampleRequests (newSubscriptionManagerManager exampleConfig) = Inr exampleRegistry \<and>
   get exampleRegistry ''a'' True [] [] =
     Inr (after exampleConfig ''a'' [SubscribePath ''s1'' ''/a'' 0 None 7], exampleRegistry, []) \<and>
   rangeOrder (pathSubscriptionIDToRef
       (after exampleConfig ''a'' [SubscribePath ''s1'' ''/a'' 0 None 7])) [''s1''] \<and>
   rangeOrder (nonPathSubscriptionIDToTopic
       (after exampleConfig ''a'' [SubscribePath ''s1'' ''/a'' 0 None 7])) [] \<and>
   get exampleRegistry ''d'' True [''s1''] [] =
     Inr (newSubscriptionManager ''d'' exampleConfig,
          exampleRegistry
            \<lparr>subscriptionManagers :=
               ((subscriptionManagers exampleRegistry)(''a'' := None))
                 (''d'' \<mapsto> newSubscriptionManager ''d'' exampleConfig),
             purgeableClientIDsFIFO := [''b'', ''c'', ''d'']\<rparr>,
          [trackerShutdown ''a'',
           shutdownCall (debounce (OnPathChange 7 ''a'' ''s1'' ''/a'' 0) rate_Inf),
           UnregisterFromChanges exampleBranch]) \<and>
   get exampleRegistry ''f'' False [] [] =
     Inr (newSubscriptionManager ''f'' exampleConfig,
          exampleRegistry
            \<lparr>subscriptionManagers :=
               (subscriptionManagers exampleRegistry)
                 (''f'' \<mapsto> newSubscriptionManager ''f'' exampleConfig)\<rparr>,
          [])"
proof -
  have h: "serveAll exampleRequests (newSubscriptionManagerManager exampleConfig) =
      Inr exampleRegistry"
    by (simp add: exampleRequests_def exampleRegistry_def newSubscriptionManagerManager_def
        get_def maxPurgeableSubscriptionManagerClient_def example_defs manager_defs)
  have r: "rangeOrder (pathSubscriptionIDToRef
       (after exampleConfig ''a'' [SubscribePath ''s1'' ''/a'' 0 None 7])) [''s1'']"
    "rangeOrder (nonPathSubscriptionIDToTopic
       (after exampleConfig ''a'' [SubscribePath ''s1'' ''/a'' 0 None 7])) []"
    by (simp_all add: rangeOrder_def example_defs manager_defs)
  have s: "snd (Shutdown (after exampleConfig ''a'' [SubscribePath ''s1'' ''/a'' 0 None 7])
        [''s1''] []) =
      [trackerShutdown ''a'',
       shutdownCall (debounce (OnPathChange 7 ''a'' ''s1'' ''/a'' 0) rate_Inf),
       UnregisterFromChanges exampleBranch]"
    by (simp add: Shutdown_def example_defs manager_defs)
  have q: "subscriptionManagers exampleRegistry ''d'' = None"
    "subscriptionManagers exampleRegistry ''f'' = None"
    "subscriptionManagers exampleRegistry ''a'' =
       Some (after exampleConfig ''a'' [SubscribePath ''s1'' ''/a'' 0 None 7])"
    "purgeableClientIDsFIFO exampleRegistry = [''a'', ''b'', ''c'']"
    by (simp_all add: exampleRegistry_def)
  note hit = get_creates_and_evicts[OF h, of "''a''" True "[]" "[]" True "[]" "[]",
      THEN conjunct1, rule_format, OF q(3)]
  have pf: "subscriptionManagers exampleRegistry ''f'' = None \<and>
      (\<not> False \<or> length (purgeableClientIDsFIFO exampleRegistry) \<noteq>
         maxPurgeableSubscriptionManagerClient)"
    by (simp add: q)
  note plain = get_creates_and_evicts[OF h, of "''f''" False "[]" "[]" True "[]" "[]",
      THEN conjunct2, THEN conjunct1, rule_format, OF pf]
  have pd: "subscriptionManagers exampleRegistry ''d'' = None \<and> True \<and>
      length (purgeableClientIDsFIFO exampleRegistry) = maxPurgeableSubscriptionManagerClient"
    by (simp add: q maxPurgeableSubscriptionManagerClient_def)
  from get_creates_and_evicts[OF h, of "''d''" True "[''s1'']" "[]" True "[]" "[]",
      THEN conjunct2, THEN conjunct2, THEN conjunct1, rule_format, OF pd]
  obtain old where o: "subscriptionManagers exampleRegistry
        (hd (purgeableClientIDsFIFO exampleRegistry)) = Some old"
    and g: "get exampleRegistry ''d'' True [''s1''] [] =
       Inr (newSubscriptionManager ''d'' exampleConfig,
            exampleRegistry
              \<lparr>subscriptionManagers :=
                 ((subscriptionManagers exampleRegistry)
                    (hd (purgeableClientIDsFIFO exampleRegistry) := None))
                   (''d'' \<mapsto> newSubscriptionManager ''d'' exampleConfig),
               purgeableClientIDsFIFO := tl (purgeableClientIDsFIFO exampleRegistry) @ [''d'']\<rparr>,
            snd (Shutdown old [''s1''] []))"
    by blast
  from o have old: "old = after exampleConfig ''a'' [SubscribePath ''s1'' ''/a'' 0 None 7]"
    by (simp add: q)
  from hit plain g show ?thesis
    unfolding old s by (simp add: h r q)
qed

section \<open>Debounced delivery\<close>

text \<open>
  C4, as the code has it. A notifier made for a positive deduplicate interval has a
  finite rate. In every state it can reach, \<^verbatim>\<open>notify\<close> does not block, \<^verbatim>\<open>notify\<close> while
  a notification is pending changes nothing (the call is dropped; the channel never
  holds more than one), and no window of the length of the interval holds more than two
  callback invocations.
\<close>

theorem debounced_callbacks_paced:
  assumes "0 < interval"
    and "steps as (started (debounce cb (limitOf (Some interval)))) = Some s"
  shows "limitOf (Some interval) \<noteq> rate_Inf \<and>
     notify s \<noteq> None \<and> (st_ch s = 1 \<longrightarrow> notify s = Some s) \<and> st_ch s \<le> 1 \<and>
     length (filter (\<lambda>c. t \<le> c \<and> c < t + nat interval) (st_calls s)) \<le> 2"
proof -
  let ?d = "nat interval"
  from assms(1) have lim: "limitOf (Some interval) = rate_PerInterval ?d"
    by (simp add: limitOf_def rate_Every_def)
  then have "st_limit (started (debounce cb (limitOf (Some interval)))) = rate_PerInterval ?d"
    by (simp add: started_def debounce_def)
  from paced_steps[OF paced_started this assms(2)]
  have p: "paced ?d s" and l: "st_limit s = rate_PerInterval ?d" by simp_all
  from p have "length (filter (\<lambda>c. t \<le> c \<and> c < t + ?d) (st_calls s)) \<le> 2"
    by (intro window_at_most_two) (simp_all add: paced_def)
  moreover from p have "st_ch s \<le> 1" by (simp add: paced_def)
  moreover from l have "notify s \<noteq> None" "st_ch s = 1 \<longrightarrow> notify s = Some s"
    by (simp_all add: notify_def getChSender_def)
  ultimately show ?thesis using lim by simp
qed

theorem debounced_callbacks_paced_witness:
  "(0 :: int) < 10 \<and>
   steps busySchedule (started (exampleNotifier (limitOf (Some 10)))) =
     Some \<lparr>st_limit = rate_PerInterval 10, st_ch = 1, st_cancelled = False, st_pc = atSelect,
           st_last = Some 110, st_now = 115, st_calls = [100, 100]\<rparr> \<and>
   notify \<lparr>st_limit = rate_PerInterval 10, st_ch = 1, st_cancelled = False, st_pc = atSelect,
           st_last = Some 110, st_now = 115, st_calls = [100, 100]\<rparr> =
     Some \<lparr>st_limit = rate_PerInterval 10, st_ch = 1, st_cancelled = False, st_pc = atSelect,
           st_last = Some 110, st_now = 115, st_calls = [100, 100]\<rparr> \<and>
   length (filter (\<lambda>c. 100 \<le> c \<and> c < 100 + nat 10) [100, 100 :: nat]) \<le> 2"
proof -
  have i: "(0 :: int) < 10" by simp
  have h: "steps busySchedule (started (debounce
        (OnNonPathChange 7 ''gui'' ''n1'' SubscriptionTopic_ONLINE_STATUS) (limitOf (Some 10)))) =
     Some \<lparr>st_limit = rate_PerInterval 10, st_ch = 1, st_cancelled = False, st_pc = atSelect,
           st_last = Some 110, st_now = 115, st_calls = [100, 100]\<rparr>"
    by (simp add: busySchedule_def burstSchedule_def debounce_def started_def step_defs
        limitOf_def rate_Every_def)
  show ?thesis
    using i h debounced_callbacks_paced[OF i h, of 100]
    by (simp add: exampleNotifier_def)
qed

text \<open>C4 as stated fails: the goroutine takes its permission before it waits for a
  notification, so after an idle time two \<^verbatim>\<open>notify\<close> calls at the same moment are both
  delivered at once, the second with the permission that became available meanwhile.\<close>

theorem one_callback_per_interval_counterexample:
  "map_option st_calls (steps burstSchedule (started (exampleNotifier (limitOf (Some 10))))) =
     Some [100, 100]"
  by (simp add: burstSchedule_def exampleNotifier_def debounce_def started_def step_defs
      limitOf_def rate_Every_def)

lemma cancelled_step:
  assumes "st_cancelled s" "step a s = Some s'"
  shows "st_cancelled s' \<and> st_limit s' = st_limit s \<and>
     rank (st_pc s') + (if isTaskStep a then 1 else 0) \<le> rank (st_pc s) \<and>
     length (st_calls s') + (if st_pc s' = atSelect then 1 else 0) \<le>
       length (st_calls s) + (if st_pc s = atSelect then 1 else 0) \<and>
     (st_pc s = exited \<longrightarrow> st_pc s' = exited \<and> st_calls s' = st_calls s \<and> st_ch s \<le> st_ch s')"
  using assms by (cases a; cases "st_pc s") (auto simp: step_defs split: if_splits)

lemma cancelled_steps:
  assumes "st_cancelled s" "steps as s = Some s'"
  shows "st_cancelled s' \<and> st_limit s' = st_limit s \<and>
     rank (st_pc s') + length (filter isTaskStep as) \<le> rank (st_pc s) \<and>
     length (st_calls s') + (if st_pc s' = atSelect then 1 else 0) \<le>
       length (st_calls s) + (if st_pc s = atSelect then 1 else 0) \<and>
     (st_pc s = exited \<longrightarrow> st_pc s' = exited \<and> st_calls s' = st_calls s \<and> st_ch s \<le> st_ch s')"
  using assms
proof (induction as arbitrary: s)
  case Nil
  then show ?case by simp
next
  case (Cons a as)
  from Cons.prems(2) obtain s1 where s1: "step a s = Some s1" "steps as s1 = Some s'"
    by (auto split: option.splits)
  note one = cancelled_step[OF Cons.prems(1) s1(1)]
  then have c1: "st_cancelled s1" by simp
  note rest = Cons.IH[OF c1 s1(2)]
  from one rest show ?case by (auto split: if_splits)
qed

lemma rank_le_2: "rank p \<le> 2"
  by (cases p) simp_all

lemma steps_append:
  "steps (as @ bs) s = (case steps as s of None \<Rightarrow> None | Some s1 \<Rightarrow> steps bs s1)"
  by (induction as arbitrary: s) (auto split: option.splits)

text \<open>
  C5, as the code has it. From the call of \<^verbatim>\<open>shutdown\<close> on (in any state, at any
  rate), whatever the callers do: the context stays cancelled; the goroutine takes at
  most two more steps, and can take one as long as it has not returned, so it ends;
  it starts at most one more callback; once it has returned it stays so and no
  callback is started any more. At a finite rate \<^verbatim>\<open>notify\<close> never blocks. At the
  unlimited rate a \<^verbatim>\<open>notify\<close> call on a full channel blocks for ever once the goroutine
  has returned.
\<close>

theorem after_shutdown:
  assumes "steps as (shutdown s0) = Some s1" and "steps bs s1 = Some s2"
  shows "st_cancelled s2 \<and>
     length (filter isTaskStep (as @ bs)) \<le> 2 \<and>
     length (st_calls s2) \<le> length (st_calls s0) + 1 \<and>
     (st_pc s2 \<noteq> exited \<longrightarrow> waitReturns s2 \<noteq> None \<or> selectDone s2 \<noteq> None) \<and>
     (st_pc s1 = exited \<longrightarrow> st_pc s2 = exited \<and> st_calls s2 = st_calls s1) \<and>
     (st_limit s0 \<noteq> rate_Inf \<longrightarrow> notify s2 \<noteq> None) \<and>
     (st_limit s0 = rate_Inf \<and> st_pc s1 = exited \<and> 0 < st_ch s1 \<longrightarrow> notify s2 = None)"
proof -
  have c0: "st_cancelled (shutdown s0)" by (simp add: shutdown_def)
  note a = cancelled_steps[OF c0 assms(1)]
  then have c1: "st_cancelled s1" by simp
  note b = cancelled_steps[OF c1 assms(2)]
  have "steps (as @ bs) (shutdown s0) = Some s2"
    using assms by (simp add: steps_append)
  note w = cancelled_steps[OF c0 this]
  have 1: "st_cancelled s2" using b by simp
  have 2: "length (filter isTaskStep (as @ bs)) \<le> 2"
    using w rank_le_2[of "st_pc (shutdown s0)"] by linarith
  have 3: "length (st_calls s2) \<le> length (st_calls s0) + 1"
    using w by (auto simp: shutdown_def split: if_splits)
  have 4: "st_pc s2 \<noteq> exited \<longrightarrow> waitReturns s2 \<noteq> None \<or> selectDone s2 \<noteq> None"
    using 1 by (cases "st_pc s2") (simp_all add: waitReturns_def selectDone_def)
  have 5: "st_pc s1 = exited \<longrightarrow> st_pc s2 = exited \<and> st_calls s2 = st_calls s1"
    using b by simp
  have l: "st_limit s2 = st_limit s0" using w by (simp add: shutdown_def)
  have 6: "st_limit s0 \<noteq> rate_Inf \<longrightarrow> notify s2 \<noteq> None"
    using l by (simp add: notify_def getChSender_def)
  have 7: "st_limit s0 = rate_Inf \<and> st_pc s1 = exited \<and> 0 < st_ch s1 \<longrightarrow> notify s2 = None"
    using l b by (auto simp: notify_def getChSender_def)
  from 1 2 3 4 5 6 7 show ?thesis by blast
qed

theorem after_shutdown_witness:
  "steps exitedSchedule (shutdown (started (exampleNotifier (rate_PerInterval 10)))) =
     Some \<lparr>st_limit = rate_PerInterval 10, st_ch = 1, st_cancelled = True, st_pc = exited,
           st_last = None, st_now = 0, st_calls = []\<rparr> \<and>
   steps [Notify, Tick 50, Notify]
       \<lparr>st_limit = rate_PerInterval 10, st_ch = 1, st_cancelled = True, st_pc = exited,
        st_last = None, st_now = 0, st_calls = []\<rparr> =
     Some \<lparr>st_limit = rate_PerInterval 10, st_ch = 1, st_cancelled = True, st_pc = exited,
           st_last = None, st_now = 50, st_calls = []\<rparr> \<and>
   notify \<lparr>st_limit = rate_PerInterval 10, st_ch = 1, st_cancelled = True, st_pc = exited,
           st_last = None, st_now = 50, st_calls = []\<rparr> \<noteq> None \<and>
   st_calls \<lparr>st_limit = rate_PerInterval 10, st_ch = 1, st_cancelled = True, st_pc = exited,
           st_last = None, st_now = 50, st_calls = []\<rparr> = []"
proof -
  have h1: "steps exitedSchedule (shutdown (started (exampleNotifier (rate_PerInterval 10)))) =
     Some \<lparr>st_limit = rate_PerInterval 10, st_ch = 1, st_cancelled = True, st_pc = exited,
           st_last = None, st_now = 0, st_calls = []\<rparr>"
    by (simp add: exitedSchedule_def exampleNotifier_def debounce_def started_def step_defs)
  have h2: "steps [Notify, Tick 50, Notify]
       \<lparr>st_limit = rate_PerInterval 10, st_ch = 1, st_cancelled = True, st_pc = exited,
        st_last = None, st_now = 0, st_calls = []\<rparr> =
     Some \<lparr>st_limit = rate_PerInterval 10, st_ch = 1, st_cancelled = True, st_pc = exited,
           st_last = None, st_now = 50, st_calls = []\<rparr>"
    by (simp add: step_defs)
  show ?thesis
    using h1 h2 after_shutdown[OF h1 h2]
    by (simp add: exampleNotifier_def debounce_def started_def)
qed

text \<open>C5 as stated fails. At the unlimited rate, after \<^verbatim>\<open>shutdown\<close> and the return of the
  goroutine a first \<^verbatim>\<open>notify\<close> fills the channel and a second one cannot complete. And
  when the goroutine has its permission but has not reached the \<^verbatim>\<open>select\<close> yet, a
  \<^verbatim>\<open>notify\<close> that follows \<^verbatim>\<open>shutdown\<close> can still be received and start the callback.\<close>

theorem notify_after_shutdown_counterexample:
  "steps [ShutdownCall, WaitReturns, Notify, Notify] (started (exampleNotifier rate_Inf)) = None \<and>
   map_option st_pc
     (steps [ShutdownCall, WaitReturns, Notify] (started (exampleNotifier rate_Inf))) =
     Some exited \<and>
   map_option st_calls
     (steps [WaitReturns, ShutdownCall, Notify, SelectReceive]
        (started (exampleNotifier (rate_PerInterval 10)))) = Some [0]"
  by (simp add: exampleNotifier_def debounce_def started_def step_defs)

end
